theory Spec2Isabelle
  imports Main "HOL-Library.AList" "HOL-Library.Multiset"
begin

section \<open>JavaScript values\<close>

text \<open>
  The EventBus (\<^verbatim>\<open>src/unnamed/part_002\<close>) and the AppStore
  (\<^verbatim>\<open>src/src/stores/AppStore.js\<close>) are dynamically typed: payloads, listener results,
  thrown errors and the state tree are arbitrary JavaScript values. They are embedded as one
  datatype. Numbers are integers (all numbers the two classes compute with are millisecond
  timestamps, priorities and lengths). An object is the list of its own enumerable properties in
  insertion order; a \<^verbatim>\<open>Map\<close> instance is the list of its entries. A function value is an
  identity: either a function supplied by the surrounding application, whose behaviour is a
  parameter of the model, or the listener closure that \<^verbatim>\<open>waitFor\<close> creates, which
  captures its timer handle and its promise.
\<close>

datatype fn = UserFn nat | WaitForListener nat nat

datatype jsval =
    JUndefined
  | JNull
  | JBool bool
  | JNum int
  | JStr string
  | JArr "jsval list"
  | JObj "(string \<times> jsval) list"
  | JMap "(string \<times> jsval) list"
  | JFn fn
  | JErr string

text \<open>What a call or an awaited promise yields: a value, or a thrown value.\<close>

datatype outcome = Returned jsval | Threw jsval

text \<open>Decimal rendering of a number inside a template string or as an array index key.\<close>

fun string_of_nat :: "nat \<Rightarrow> string" where
  "string_of_nat n =
     (if n < 10 then [''0123456789'' ! n]
      else string_of_nat (n div 10) @ [''0123456789'' ! (n mod 10)])"

declare string_of_nat.simps [simp del]

text \<open>\<^verbatim>\<open>if (v)\<close>, \<^verbatim>\<open>v || d\<close>: JavaScript truthiness.\<close>

fun truthy :: "jsval \<Rightarrow> bool" where
  "truthy JUndefined = False"
| "truthy JNull = False"
| "truthy (JBool b) = b"
| "truthy (JNum n) = (n \<noteq> 0)"
| "truthy (JStr s) = (s \<noteq> [])"
| "truthy _ = True"

text \<open>\<^verbatim>\<open>v instanceof Object\<close>: true of every object, arrays, maps, functions and errors
  included, false of every primitive.\<close>

fun instanceof_Object :: "jsval \<Rightarrow> bool" where
  "instanceof_Object (JArr _) = True"
| "instanceof_Object (JObj _) = True"
| "instanceof_Object (JMap _) = True"
| "instanceof_Object (JFn _) = True"
| "instanceof_Object (JErr _) = True"
| "instanceof_Object _ = False"

text \<open>
  The own enumerable properties of a value: what an object spread \<^verbatim>\<open>{...v}\<close> copies and
  what \<^verbatim>\<open>for (key in v)\<close> filtered by \<^verbatim>\<open>hasOwnProperty\<close> visits. An array has its
  indices, a string its character positions; a \<^verbatim>\<open>Map\<close>, a function, an \<^verbatim>\<open>Error\<close> and
  the remaining primitives have none.
\<close>

fun own_entries :: "jsval \<Rightarrow> (string \<times> jsval) list" where
  "own_entries (JObj kvs) = kvs"
| "own_entries (JArr xs) = zip (map string_of_nat [0..<length xs]) xs"
| "own_entries (JStr s) = zip (map string_of_nat [0..<length s]) (map (\<lambda>c. JStr [c]) s)"
| "own_entries _ = []"

text \<open>\<^verbatim>\<open>v[key]\<close> on own properties; an absent property reads as \<^verbatim>\<open>undefined\<close>.\<close>

definition get_prop :: "jsval \<Rightarrow> string \<Rightarrow> jsval" where
  "get_prop v key = (case map_of (own_entries v) key of Some x \<Rightarrow> x | None \<Rightarrow> JUndefined)"

text \<open>\<^verbatim>\<open>{...target, ...source}\<close>: each property of the source is assigned in turn; an
  existing key keeps its position, a new key is appended.\<close>

definition assign :: "(string \<times> jsval) list \<Rightarrow> (string \<times> jsval) list \<Rightarrow> (string \<times> jsval) list" where
  "assign tgt src = fold (\<lambda>(k, v). AList.update k v) src tgt"

text \<open>\<^verbatim>\<open>xs.findIndex(p)\<close> (\<open>-1\<close> when nothing matches) and \<^verbatim>\<open>xs.splice(i, 1)\<close>.\<close>

fun findIndex :: "('a \<Rightarrow> bool) \<Rightarrow> 'a list \<Rightarrow> int" where
  "findIndex p [] = -1"
| "findIndex p (x # xs) =
     (if p x then 0 else (let i = findIndex p xs in if i > -1 then i + 1 else -1))"

definition splice1 :: "int \<Rightarrow> 'a list \<Rightarrow> 'a list" where
  "splice1 i xs = take (nat i) xs @ drop (Suc (nat i)) xs"

text \<open>\<^verbatim>\<open>xs.slice(start)\<close>: a negative start counts from the end.\<close>

definition slice_from :: "int \<Rightarrow> 'a list \<Rightarrow> 'a list" where
  "slice_from start xs =
     (if start < 0 then drop (nat (max (int (length xs) + start) 0)) xs
      else drop (nat start) xs)"

text \<open>
  \<^verbatim>\<open>xs.sort(cmp)\<close>. The language standard requires the sort to be stable; it is embedded as
  the insertion sort that places each element behind every element not greater than it.
\<close>

fun insert_by :: "('a \<Rightarrow> 'a \<Rightarrow> int) \<Rightarrow> 'a \<Rightarrow> 'a list \<Rightarrow> 'a list" where
  "insert_by cmp x [] = [x]"
| "insert_by cmp x (y # ys) =
     (if cmp y x \<le> 0 then y # insert_by cmp x ys else x # y # ys)"

definition js_sort :: "('a \<Rightarrow> 'a \<Rightarrow> int) \<Rightarrow> 'a list \<Rightarrow> 'a list" where
  "js_sort cmp xs = foldl (\<lambda>acc x. insert_by cmp x acc) [] xs"

section \<open>The runtime: timers, promises and the application's own state\<close>

text \<open>
  \<^verbatim>\<open>setTimeout\<close> queues a task with the time at which it falls due; the task is the
  closure passed to \<^verbatim>\<open>setTimeout\<close>, represented by a constructor holding the variables
  it captures. The clock (\<^verbatim>\<open>Date.now()\<close>) and the draws of \<^verbatim>\<open>Math.random()\<close> are
  explicit arguments of the operations that read them. The field \<open>app\<close> is the state of the
  surrounding application, the only thing its functions can change.
\<close>

datatype promise = Pending | Resolved jsval | Rejected jsval

record ('t, 'u) runtime =
  timers :: "(nat \<times> nat \<times> 't) list"
  next_timer :: nat
  promises :: "nat \<rightharpoonup> promise"
  next_promise :: nat
  app :: 'u

definition setTimeout ::
  "'t \<Rightarrow> nat \<Rightarrow> nat \<Rightarrow> ('t, 'u, 'z) runtime_scheme \<Rightarrow> nat \<times> ('t, 'u, 'z) runtime_scheme" where
  "setTimeout task delay now w =
     (next_timer w,
      w\<lparr>timers := timers w @ [(next_timer w, now + delay, task)],
        next_timer := Suc (next_timer w)\<rparr>)"

definition clearTimeout :: "nat \<Rightarrow> ('t, 'u, 'z) runtime_scheme \<Rightarrow> ('t, 'u, 'z) runtime_scheme" where
  "clearTimeout h w = w\<lparr>timers := filter (\<lambda>(h', _). h' \<noteq> h) (timers w)\<rparr>"

definition new_promise :: "('t, 'u, 'z) runtime_scheme \<Rightarrow> nat \<times> ('t, 'u, 'z) runtime_scheme" where
  "new_promise w =
     (next_promise w,
      w\<lparr>promises := (promises w)(next_promise w \<mapsto> Pending),
        next_promise := Suc (next_promise w)\<rparr>)"

text \<open>Settling a promise that is already settled has no effect.\<close>

definition settle ::
  "nat \<Rightarrow> promise \<Rightarrow> ('t, 'u, 'z) runtime_scheme \<Rightarrow> ('t, 'u, 'z) runtime_scheme" where
  "settle p st w =
     (if promises w p = Some Pending then w\<lparr>promises := (promises w)(p \<mapsto> st)\<rparr> else w)"

text \<open>
  The behaviour of the application's functions: called with a \<^verbatim>\<open>this\<close> value and an
  argument list, a function sees the object that calls it, changes the application state and
  returns or throws.
\<close>

type_synonym ('o, 'u) fenv = "nat \<Rightarrow> jsval \<Rightarrow> jsval list \<Rightarrow> 'o \<Rightarrow> 'u \<Rightarrow> outcome \<times> 'u"

definition arg :: "jsval list \<Rightarrow> nat \<Rightarrow> jsval" where
  "arg args i = (if i < length args then args ! i else JUndefined)"

text \<open>
  Calling a function value. The listener of \<^verbatim>\<open>waitFor\<close> is

  \<^verbatim>\<open>(data, event) => { clearTimeout(timer); resolve({ data, event }); }\<close>
\<close>

fun call_function ::
  "('o, 'u) fenv \<Rightarrow> fn \<Rightarrow> jsval \<Rightarrow> jsval list \<Rightarrow> 'o \<Rightarrow> ('t, 'u, 'z) runtime_scheme
     \<Rightarrow> outcome \<times> ('t, 'u, 'z) runtime_scheme" where
  "call_function fenv (UserFn n) this args view w =
     (case fenv n this args view (app w) of (out, u) \<Rightarrow> (out, w\<lparr>app := u\<rparr>))"
| "call_function fenv (WaitForListener timer p) this args view w =
     (Returned JUndefined,
      settle p (Resolved (JObj [(''data'', arg args 0), (''event'', arg args 1)]))
        (clearTimeout timer w))"

section \<open>The EventBus\<close>

text \<open>The object \<^verbatim>\<open>on\<close> builds for a registration, and the one \<^verbatim>\<open>onAny\<close> builds.\<close>

record listener =
  callback :: jsval
  once :: bool
  priority :: int
  context' :: jsval
  lid :: string

record wildcard_listener =
  wcallback :: jsval
  wid :: string

record listen_options =
  opt_once :: bool
  opt_priority :: int
  opt_context :: jsval

definition no_options :: listen_options where
  "no_options = \<lparr>opt_once = False, opt_priority = 0, opt_context = JUndefined\<rparr>"

text \<open>
  The fields of the class. \<^verbatim>\<open>events\<close> is a \<^verbatim>\<open>Map\<close> from event name to listener array,
  kept as an association list in insertion order.
\<close>

record bus =
  events :: "(string \<times> listener list) list"
  history :: "jsval list"
  maxHistorySize :: nat
  wildcardListeners :: "wildcard_listener list"
  middleware :: "jsval list"
  debug :: bool

definition EventBus_new :: bus where
  "EventBus_new =
     \<lparr>events = [], history = [], maxHistorySize = 100, wildcardListeners = [],
      middleware = [], debug = False\<rparr>"

text \<open>The template string \<^verbatim>\<open>`${eventName}_${Date.now()}_${Math.random()}`\<close>; the random draw
  is rendered as a natural number.\<close>

definition fresh_id :: "string \<Rightarrow> nat \<Rightarrow> nat \<Rightarrow> string" where
  "fresh_id prefix now rnd = prefix @ ''_'' @ string_of_nat now @ ''_'' @ string_of_nat rnd"

text \<open>The comparator \<^verbatim>\<open>(a, b) => b.priority - a.priority\<close>.\<close>

definition by_priority :: "listener \<Rightarrow> listener \<Rightarrow> int" where
  "by_priority a b = priority b - priority a"

text \<open>The unsubscribe closures returned by \<^verbatim>\<open>on\<close> and \<^verbatim>\<open>onAny\<close>, with what they capture.\<close>

datatype unsubscriber = Unsubscribe string string | UnsubscribeAny string

text \<open>
  \<^verbatim>\<open>off(eventName, listenerIdOrCallback = null)\<close>. The array held by the map is changed in
  place by \<^verbatim>\<open>splice\<close>; an event whose array became empty is deleted.
\<close>

definition off :: "string \<Rightarrow> jsval \<Rightarrow> bus \<Rightarrow> bus" where
  "off eventName listenerIdOrCallback b =
     (case map_of (events b) eventName of
        None \<Rightarrow> b
      | Some listeners \<Rightarrow>
          (let remove = (\<lambda>p.
                 (let index = findIndex p listeners
                  in if index > -1
                     then (AList.update eventName (splice1 index listeners) (events b),
                           splice1 index listeners)
                     else (events b, listeners)));
               (evs, listeners') =
                 (case listenerIdOrCallback of
                    JNull \<Rightarrow> (AList.delete eventName (events b), listeners)
                  | JUndefined \<Rightarrow> (AList.delete eventName (events b), listeners)
                  | JStr s \<Rightarrow> remove (\<lambda>l. lid l = s)
                  | JFn f \<Rightarrow> remove (\<lambda>l. callback l = JFn f)
                  | _ \<Rightarrow> (events b, listeners))
           in b\<lparr>events := (if listeners' = [] then AList.delete eventName evs else evs)\<rparr>))"

text \<open>
  \<^verbatim>\<open>on(eventName, callback, options = {})\<close>: the listener is pushed onto the event's array
  (created empty when the event is new) and the array is sorted by descending priority.
\<close>

definition new_listener :: "string \<Rightarrow> jsval \<Rightarrow> listen_options \<Rightarrow> nat \<Rightarrow> nat \<Rightarrow> listener" where
  "new_listener eventName cb options now rnd =
     \<lparr>callback = cb,
      once = opt_once options,
      priority = opt_priority options,
      context' = (if truthy (opt_context options) then opt_context options else JNull),
      lid = fresh_id eventName now rnd\<rparr>"

definition on ::
  "string \<Rightarrow> jsval \<Rightarrow> listen_options \<Rightarrow> nat \<Rightarrow> nat \<Rightarrow> bus \<Rightarrow> unsubscriber \<times> bus" where
  "on eventName cb options now rnd b =
     (let l = new_listener eventName cb options now rnd;
          listeners = (case map_of (events b) eventName of None \<Rightarrow> [] | Some ls \<Rightarrow> ls)
      in (Unsubscribe eventName (lid l),
          b\<lparr>events := AList.update eventName (js_sort by_priority (listeners @ [l])) (events b)\<rparr>))"

text \<open>\<^verbatim>\<open>once(eventName, callback, options = {})\<close>.\<close>

definition once' ::
  "string \<Rightarrow> jsval \<Rightarrow> listen_options \<Rightarrow> nat \<Rightarrow> nat \<Rightarrow> bus \<Rightarrow> unsubscriber \<times> bus" where
  "once' eventName cb options now rnd b = on eventName cb (options\<lparr>opt_once := True\<rparr>) now rnd b"

definition onAny :: "jsval \<Rightarrow> nat \<Rightarrow> nat \<Rightarrow> bus \<Rightarrow> unsubscriber \<times> bus" where
  "onAny cb now rnd b =
     (let l = \<lparr>wcallback = cb, wid = fresh_id ''wildcard'' now rnd\<rparr>
      in (UnsubscribeAny (wid l), b\<lparr>wildcardListeners := wildcardListeners b @ [l]\<rparr>))"

fun unsubscribe :: "unsubscriber \<Rightarrow> bus \<Rightarrow> bus" where
  "unsubscribe (Unsubscribe eventName i) b = off eventName (JStr i) b"
| "unsubscribe (UnsubscribeAny i) b =
     (let index = findIndex (\<lambda>l. wid l = i) (wildcardListeners b)
      in if index > -1 then b\<lparr>wildcardListeners := splice1 index (wildcardListeners b)\<rparr> else b)"

text \<open>\<^verbatim>\<open>addToHistory(event)\<close>: push, then drop the oldest entry when over the limit.\<close>

definition addToHistory :: "jsval \<Rightarrow> bus \<Rightarrow> bus" where
  "addToHistory event b =
     (let h = history b @ [event]
      in b\<lparr>history := (if length h > maxHistorySize b then tl h else h)\<rparr>)"

text \<open>\<^verbatim>\<open>use(middleware)\<close> throws when its argument is not a function.\<close>

definition use :: "jsval \<Rightarrow> bus \<Rightarrow> jsval + bus" where
  "use mw b =
     (case mw of
        JFn f \<Rightarrow> Inr (b\<lparr>middleware := middleware b @ [mw]\<rparr>)
      | _ \<Rightarrow> Inl (JErr ''Middleware must be a function''))"

text \<open>
  \<^verbatim>\<open>executeListener(listener, event)\<close>, given the listener's callback and context: it throws
  when the callback is not a function, and otherwise calls it with the event's data and the
  event, bound to the context when there is one.
\<close>

definition executeListener ::
  "(bus, 'u) fenv \<Rightarrow> jsval \<Rightarrow> jsval \<Rightarrow> jsval \<Rightarrow> bus \<Rightarrow> ('t, 'u) runtime
     \<Rightarrow> outcome \<times> ('t, 'u) runtime" where
  "executeListener fenv cb ctx event b w =
     (let context = (if truthy ctx then ctx else JNull)
      in case cb of
           JFn f \<Rightarrow>
             (if truthy context
              then call_function fenv f context [get_prop event ''data'', event] b w
              else call_function fenv f JUndefined [get_prop event ''data'', event] b w)
         | _ \<Rightarrow> (Threw (JErr ''Listener callback must be a function''), w))"

text \<open>
  The three loops of \<^verbatim>\<open>emit\<close>. A middleware that returns a truthy value replaces the
  event; one that throws is logged and skipped. A listener's result is pushed, and a listener
  registered with \<^verbatim>\<open>once\<close> is then removed by its id; when the listener throws, control
  passes to the \<^verbatim>\<open>catch\<close> block, which pushes \<^verbatim>\<open>{ error }\<close>.
\<close>

fun run_middleware ::
  "(bus, 'u) fenv \<Rightarrow> jsval list \<Rightarrow> jsval \<Rightarrow> bus \<Rightarrow> ('t, 'u) runtime
     \<Rightarrow> jsval \<times> ('t, 'u) runtime" where
  "run_middleware fenv [] processedEvent b w = (processedEvent, w)"
| "run_middleware fenv (mw # mws) processedEvent b w =
     (case (case mw of
              JFn f \<Rightarrow> call_function fenv f JUndefined [processedEvent] b w
            | _ \<Rightarrow> (Threw (JErr ''middleware is not a function''), w)) of
        (Returned result, w') \<Rightarrow>
          run_middleware fenv mws (if truthy result then result else processedEvent) b w'
      | (Threw error, w') \<Rightarrow> run_middleware fenv mws processedEvent b w')"

fun emit_listeners ::
  "(bus, 'u) fenv \<Rightarrow> string \<Rightarrow> jsval \<Rightarrow> listener list \<Rightarrow> jsval list \<Rightarrow> bus \<Rightarrow> ('t, 'u) runtime
     \<Rightarrow> jsval list \<times> bus \<times> ('t, 'u) runtime" where
  "emit_listeners fenv eventName processedEvent [] results b w = (results, b, w)"
| "emit_listeners fenv eventName processedEvent (l # ls) results b w =
     (case executeListener fenv (callback l) (context' l) processedEvent b w of
        (Returned result, w') \<Rightarrow>
          emit_listeners fenv eventName processedEvent ls (results @ [result])
            (if once l then off eventName (JStr (lid l)) b else b) w'
      | (Threw error, w') \<Rightarrow>
          emit_listeners fenv eventName processedEvent ls (results @ [JObj [(''error'', error)]])
            b w')"

fun emit_wildcards ::
  "(bus, 'u) fenv \<Rightarrow> jsval \<Rightarrow> wildcard_listener list \<Rightarrow> jsval list \<Rightarrow> bus \<Rightarrow> ('t, 'u) runtime
     \<Rightarrow> jsval list \<times> ('t, 'u) runtime" where
  "emit_wildcards fenv processedEvent [] results b w = (results, w)"
| "emit_wildcards fenv processedEvent (l # ls) results b w =
     (case executeListener fenv (wcallback l) JUndefined processedEvent b w of
        (Returned result, w') \<Rightarrow>
          emit_wildcards fenv processedEvent ls (results @ [result]) b w'
      | (Threw error, w') \<Rightarrow>
          emit_wildcards fenv processedEvent ls (results @ [JObj [(''error'', error)]]) b w')"

text \<open>The event object \<^verbatim>\<open>{ name, data, timestamp, id, ...options }\<close>.\<close>

definition make_event :: "string \<Rightarrow> jsval \<Rightarrow> jsval \<Rightarrow> nat \<Rightarrow> nat \<Rightarrow> jsval" where
  "make_event eventName data options now rnd =
     JObj (assign [(''name'', JStr eventName), (''data'', data), (''timestamp'', JNum (int now)),
                   (''id'', JStr (fresh_id eventName now rnd))]
            (own_entries options))"

text \<open>
  \<^verbatim>\<open>emit(eventName, data = null, options = {})\<close>. The promise it returns is fulfilled with
  \<^verbatim>\<open>results\<close>; no statement of the body can throw outside a \<^verbatim>\<open>try\<close> block.
\<close>

definition emit ::
  "(bus, 'u) fenv \<Rightarrow> string \<Rightarrow> jsval \<Rightarrow> jsval \<Rightarrow> nat \<Rightarrow> nat \<Rightarrow> bus \<Rightarrow> ('t, 'u) runtime
     \<Rightarrow> jsval list \<times> bus \<times> ('t, 'u) runtime" where
  "emit fenv eventName data options now rnd b w =
     (let event = make_event eventName data options now rnd;
          b1 = addToHistory event b;
          (processedEvent, w1) = run_middleware fenv (middleware b1) event b1 w;
          (results, b2, w2) =
            (case map_of (events b1) eventName of
               Some listeners \<Rightarrow> emit_listeners fenv eventName processedEvent listeners [] b1 w1
             | None \<Rightarrow> ([], b1, w1));
          (results', w3) = emit_wildcards fenv processedEvent (wildcardListeners b2) results b2 w2
      in (results', b2, w3))"

text \<open>Introspection.\<close>

definition hasEvent :: "string \<Rightarrow> bus \<Rightarrow> bool" where
  "hasEvent eventName b =
     (case map_of (events b) eventName of Some ls \<Rightarrow> length ls > 0 | None \<Rightarrow> False)"

definition listenerCount :: "string \<Rightarrow> bus \<Rightarrow> nat" where
  "listenerCount eventName b =
     (case map_of (events b) eventName of Some ls \<Rightarrow> length ls | None \<Rightarrow> 0)"

definition eventNames :: "bus \<Rightarrow> string list" where
  "eventNames b = map fst (events b)"

definition getHistory :: "int \<Rightarrow> bus \<Rightarrow> jsval list" where
  "getHistory limit b = slice_from (- limit) (history b)"

definition getEventHistory :: "string \<Rightarrow> int \<Rightarrow> bus \<Rightarrow> jsval list" where
  "getEventHistory eventName limit b =
     slice_from (- limit) (filter (\<lambda>event. get_prop event ''name'' = JStr eventName) (history b))"

definition setDebug :: "bool \<Rightarrow> bus \<Rightarrow> bus" where
  "setDebug enabled b = b\<lparr>debug := enabled\<rparr>"

record stats =
  totalEvents :: nat
  totalListeners :: nat
  wildcardListenerCount :: nat
  historySize :: nat
  middlewareCount :: nat
  eventStats :: "(string \<times> nat) list"

definition getStats :: "bus \<Rightarrow> stats" where
  "getStats b =
     \<lparr>totalEvents = length (events b),
      totalListeners = foldl (\<lambda>sum listeners. sum + length listeners) 0 (map snd (events b)),
      wildcardListenerCount = length (wildcardListeners b),
      historySize = length (history b),
      middlewareCount = length (middleware b),
      eventStats = map (\<lambda>(eventName, listeners). (eventName, length listeners)) (events b)\<rparr>"

definition clear :: "bus \<Rightarrow> bus" where
  "clear b = b\<lparr>events := [], wildcardListeners := [], history := []\<rparr>"

definition destroy :: "bus \<Rightarrow> bus" where
  "destroy b = (clear b)\<lparr>middleware := []\<rparr>"

text \<open>
  \<^verbatim>\<open>waitFor(eventName, timeout = 5000)\<close> creates a promise, a timer and a listener
  registered with \<^verbatim>\<open>once\<close>. The timer's task, when it fires under handle \<open>h\<close>, is

  \<^verbatim>\<open>() => { this.off(eventName, listener); reject(new Error(`Event ... timeout after ...ms`)); }\<close>

  where \<^verbatim>\<open>listener\<close> is the closure that captured the same handle.
\<close>

datatype bus_task = WaitForTimeout string nat nat

definition waitFor ::
  "string \<Rightarrow> nat \<Rightarrow> nat \<Rightarrow> nat \<Rightarrow> bus \<Rightarrow> (bus_task, 'u) runtime
     \<Rightarrow> nat \<times> bus \<times> (bus_task, 'u) runtime" where
  "waitFor eventName timeout now rnd b w =
     (let (p, w1) = new_promise w;
          (timer, w2) = setTimeout (WaitForTimeout eventName p timeout) timeout now w1;
          listener = JFn (WaitForListener timer p);
          (u, b') = once' eventName listener no_options now rnd b
      in (p, b', w2))"

fun run_bus_task ::
  "nat \<Rightarrow> bus_task \<Rightarrow> bus \<Rightarrow> (bus_task, 'u) runtime \<Rightarrow> bus \<times> (bus_task, 'u) runtime" where
  "run_bus_task h (WaitForTimeout eventName p timeout) b w =
     (off eventName (JFn (WaitForListener h p)) b,
      settle p
        (Rejected (JErr (''Event '' @ eventName @ '' timeout after '' @ string_of_nat timeout
                          @ ''ms'')))
        w)"

text \<open>
  The event loop between two calls: every timer that has fallen due by \<open>now\<close> fires, earliest
  first, unless a task that ran before it cleared it. A timer leaves the queue when it fires.
\<close>

fun fire_all ::
  "(nat \<Rightarrow> 't \<Rightarrow> 's \<Rightarrow> ('t, 'u, 'z) runtime_scheme \<Rightarrow> 's \<times> ('t, 'u, 'z) runtime_scheme)
     \<Rightarrow> (nat \<times> nat \<times> 't) list
     \<Rightarrow> 's \<Rightarrow> ('t, 'u, 'z) runtime_scheme \<Rightarrow> 's \<times> ('t, 'u, 'z) runtime_scheme" where
  "fire_all run [] s w = (s, w)"
| "fire_all run ((h, due, task) # rest) s w =
     (if h \<in> set (map fst (timers w))
      then (case run h task s (clearTimeout h w) of (s', w') \<Rightarrow> fire_all run rest s' w')
      else fire_all run rest s w)"

definition run_due ::
  "(nat \<Rightarrow> 't \<Rightarrow> 's \<Rightarrow> ('t, 'u, 'z) runtime_scheme \<Rightarrow> 's \<times> ('t, 'u, 'z) runtime_scheme) \<Rightarrow> nat
     \<Rightarrow> 's \<Rightarrow> ('t, 'u, 'z) runtime_scheme \<Rightarrow> 's \<times> ('t, 'u, 'z) runtime_scheme" where
  "run_due run now s w =
     fire_all run (sort_key (\<lambda>(h, due, task). due) (filter (\<lambda>(h, due, task). due \<le> now) (timers w)))
       s w"

section \<open>The AppStore\<close>

text \<open>
  The state of the store is a tree of JavaScript values. Besides the runtime, the store reads
  and writes \<^verbatim>\<open>localStorage\<close>, a map from keys to strings; \<^verbatim>\<open>JSON.parse\<close> and
  \<^verbatim>\<open>JSON.stringify\<close> are parameters of the operations that use them (\<open>None\<close> is a
  parse error). The timer tasks are the closures the store passes to \<^verbatim>\<open>setTimeout\<close>.
\<close>

record store =
  state :: jsval
  listeners :: "jsval list"
  store_middleware :: "jsval list"

record ('t, 'u) browser = "('t, 'u) runtime" +
  localStorage :: "string \<rightharpoonup> string"

datatype store_task = RemoveCache string

text \<open>\<^verbatim>\<open>obj[key] = v\<close> on a plain object.\<close>

fun set_prop :: "string \<Rightarrow> jsval \<Rightarrow> jsval \<Rightarrow> jsval" where
  "set_prop key v (JObj kvs) = JObj (AList.update key v kvs)"
| "set_prop key v obj = obj"

text \<open>Calling a value: a value that is not a function makes the call throw a TypeError.\<close>

definition call_value ::
  "('o, 'u) fenv \<Rightarrow> jsval \<Rightarrow> jsval \<Rightarrow> jsval list \<Rightarrow> 'o \<Rightarrow> ('t, 'u, 'z) runtime_scheme
     \<Rightarrow> outcome \<times> ('t, 'u, 'z) runtime_scheme" where
  "call_value fenv f this args view w =
     (case f of
        JFn g \<Rightarrow> call_function fenv g this args view w
      | _ \<Rightarrow> (Threw (JErr ''TypeError: not a function''), w))"

text \<open>
  The state the constructor builds; the date and the time of day are read from the clock.
\<close>

definition initial_state :: "string \<Rightarrow> string \<Rightarrow> jsval" where
  "initial_state currentDate currentTime =
     JObj [(''currentUser'', JNull),
           (''currentDate'', JStr currentDate),
           (''currentTime'', JStr currentTime),
           (''settings'', JObj [(''theme'', JStr ''light''), (''language'', JStr ''ja''),
                               (''currency'', JStr ''JPY''), (''timezone'', JStr ''Asia/Tokyo'')]),
           (''ui'', JObj [(''loading'', JBool False), (''notifications'', JArr []),
                         (''modal'', JNull), (''sidebarOpen'', JBool False)]),
           (''cache'', JMap []),
           (''cacheTimestamps'', JMap []),
           (''cacheTTL'', JNum (5 * 60 * 1000))]"

text \<open>
  \<^verbatim>\<open>loadSettings()\<close>: saved settings, when there are any and they parse, are spread over
  the default settings; a failure is caught and logged.
\<close>

definition loadSettings ::
  "(string \<Rightarrow> jsval option) \<Rightarrow> store \<Rightarrow> ('t, 'u) browser \<Rightarrow> store" where
  "loadSettings parse st w =
     (case localStorage w ''moc_app_settings'' of
        None \<Rightarrow> st
      | Some savedSettings \<Rightarrow>
          (if savedSettings = [] then st
           else (case parse savedSettings of
                   None \<Rightarrow> st
                 | Some parsed \<Rightarrow>
                     st\<lparr>state := set_prop ''settings''
                                     (JObj (assign (own_entries (get_prop (state st) ''settings''))
                                              (own_entries parsed)))
                                     (state st)\<rparr>)))"


text \<open>
  The constructor, with the part of \<^verbatim>\<open>init()\<close> that concerns the state. The once-a-minute
  clock update and the page-unload handler that \<^verbatim>\<open>init()\<close> also installs call
  \<^verbatim>\<open>setState\<close> and \<^verbatim>\<open>saveSettings\<close> later on; they are not part of the construction.
\<close>

definition AppStore_new ::
  "(string \<Rightarrow> jsval option) \<Rightarrow> string \<Rightarrow> string \<Rightarrow> ('t, 'u) browser \<Rightarrow> store" where
  "AppStore_new parse currentDate currentTime w =
     loadSettings parse
       \<lparr>state = initial_state currentDate currentTime, listeners = [], store_middleware = []\<rparr> w"

definition subscribe :: "jsval \<Rightarrow> store \<Rightarrow> store" where
  "subscribe listener st = st\<lparr>listeners := listeners st @ [listener]\<rparr>"

text \<open>The closure \<^verbatim>\<open>subscribe\<close> returns, applied.\<close>

definition unsubscribe_listener :: "jsval \<Rightarrow> store \<Rightarrow> store" where
  "unsubscribe_listener listener st =
     (let index = findIndex (\<lambda>l. l = listener) (listeners st)
      in if index > -1 then st\<lparr>listeners := splice1 index (listeners st)\<rparr> else st)"

definition store_use :: "jsval \<Rightarrow> store \<Rightarrow> store" where
  "store_use mw st = st\<lparr>store_middleware := store_middleware st @ [mw]\<rparr>"

text \<open>\<^verbatim>\<open>notify(action)\<close>: every listener is called with the state and the action; what a
  listener throws is caught and logged.\<close>

fun notify_all ::
  "(store, 'u) fenv \<Rightarrow> jsval list \<Rightarrow> jsval \<Rightarrow> store \<Rightarrow> ('t, 'u, 'z) runtime_scheme
     \<Rightarrow> ('t, 'u, 'z) runtime_scheme" where
  "notify_all fenv [] action st w = w"
| "notify_all fenv (listener # rest) action st w =
     (case call_value fenv listener JUndefined [state st, action] st w of
        (out, w') \<Rightarrow> notify_all fenv rest action st w')"

definition notify ::
  "(store, 'u) fenv \<Rightarrow> jsval \<Rightarrow> store \<Rightarrow> ('t, 'u, 'z) runtime_scheme
     \<Rightarrow> ('t, 'u, 'z) runtime_scheme" where
  "notify fenv action st w = notify_all fenv (listeners st) action st w"

text \<open>
  \<^verbatim>\<open>mergeDeep(target, source)\<close>: the result starts as a copy of the target's own properties;
  each own property of the source is then assigned to it, merged recursively with the target's
  value when both values pass \<^verbatim>\<open>instanceof Object\<close>. The result is always a plain object.
\<close>

function mergeDeep :: "jsval \<Rightarrow> jsval \<Rightarrow> jsval" where
  "mergeDeep target source =
     JObj (fold (\<lambda>(key, v) result.
                   AList.update key
                     (if instanceof_Object v \<and> instanceof_Object (get_prop target key)
                      then mergeDeep (get_prop target key) v
                      else v)
                     result)
             (own_entries source) (own_entries target))"
  by pat_completeness auto
termination
proof (relation "measure (\<lambda>(target, source). size source)")
  show "wf (measure (\<lambda>(target, source). size source))" by simp
next
  fix target source :: jsval and x :: "string \<times> jsval" and key v and result :: "(string \<times> jsval) list"
  assume x: "x \<in> set (own_entries source)" and kv: "(key, v) = x"
    and obj: "instanceof_Object v \<and> instanceof_Object (get_prop target key)"
  have "size v < size source"
  proof (cases source)
    case (JObj kvs)
    with x kv have "(key, v) \<in> set kvs" by simp
    then have "size v < Suc (size_list (size_prod (\<lambda>_. 0) size) kvs)"
      by (induction kvs) auto
    with JObj show ?thesis by simp
  next
    case (JArr xs)
    with x kv have "v \<in> set xs" by (auto dest: set_zip_rightD)
    then have "size v < Suc (size_list size xs)" by (induction xs) auto
    with JArr show ?thesis by simp
  next
    case (JStr s)
    with x kv obj show ?thesis by (auto dest!: set_zip_rightD)
  qed (use x in auto)
  then show "((get_prop target key, v), (target, source)) \<in> measure (\<lambda>(target, source). size source)"
    by simp
qed

declare mergeDeep.simps [simp del]

text \<open>
  The middleware loop of \<^verbatim>\<open>setState\<close>:
  \<^verbatim>\<open>processedState = middleware(processedState, prevState, action) || processedState\<close>
  inside a \<^verbatim>\<open>try\<close> whose \<^verbatim>\<open>catch\<close> only logs.
\<close>

fun apply_middleware ::
  "(store, 'u) fenv \<Rightarrow> jsval list \<Rightarrow> jsval \<Rightarrow> jsval \<Rightarrow> jsval \<Rightarrow> store
     \<Rightarrow> ('t, 'u, 'z) runtime_scheme \<Rightarrow> jsval \<times> ('t, 'u, 'z) runtime_scheme" where
  "apply_middleware fenv [] processedState prevState action st w = (processedState, w)"
| "apply_middleware fenv (mw # mws) processedState prevState action st w =
     (case call_value fenv mw JUndefined [processedState, prevState, action] st w of
        (Returned result, w') \<Rightarrow>
          apply_middleware fenv mws (if truthy result then result else processedState)
            prevState action st w'
      | (Threw error, w') \<Rightarrow> apply_middleware fenv mws processedState prevState action st w')"

text \<open>
  \<^verbatim>\<open>setState(newState, action = {})\<close>. The last statement reads
  \<^verbatim>\<open>this.state.settings.debug\<close>, which throws a TypeError when the merged state has no
  \<^verbatim>\<open>settings\<close> object; by then the state is replaced and the listeners are notified.
\<close>

definition setState ::
  "(store, 'u) fenv \<Rightarrow> jsval \<Rightarrow> jsval \<Rightarrow> store \<Rightarrow> ('t, 'u, 'z) runtime_scheme
     \<Rightarrow> outcome \<times> store \<times> ('t, 'u, 'z) runtime_scheme" where
  "setState fenv newState action st w =
     (let prevState = JObj (own_entries (state st));
          (processedState, w1) =
             apply_middleware fenv (store_middleware st) newState prevState action st w;
          st1 = st\<lparr>state := mergeDeep (state st) processedState\<rparr>;
          w2 = notify fenv action st1 w1
      in (if get_prop (state st1) ''settings'' = JUndefined \<or> get_prop (state st1) ''settings'' = JNull
          then Threw (JErr ''TypeError: cannot read properties of undefined'')
          else Returned JUndefined,
          st1, w2))"

text \<open>\<^verbatim>\<open>path.split('.')\<close> and \<^verbatim>\<open>getState(path = null)\<close>, whose reducer is
  \<^verbatim>\<open>(obj, key) => obj && obj[key]\<close>.\<close>

fun split_on :: "char \<Rightarrow> string \<Rightarrow> string list" where
  "split_on c [] = [] # []"
| "split_on c (x # xs) =
     (if x = c then [] # split_on c xs
      else (case split_on c xs of w # ws \<Rightarrow> (x # w) # ws | [] \<Rightarrow> [x] # []))"

definition get_in :: "string list \<Rightarrow> jsval \<Rightarrow> jsval" where
  "get_in keys tree = foldl (\<lambda>obj key. if truthy obj then get_prop obj key else obj) tree keys"

definition getState :: "string option \<Rightarrow> store \<Rightarrow> jsval" where
  "getState path st =
     (case path of
        None \<Rightarrow> JObj (own_entries (state st))
      | Some p \<Rightarrow>
          (if p = [] then JObj (own_entries (state st))
           else get_in (split_on CHR ''.'' p) (state st)))"

definition setLoading ::
  "(store, 'u) fenv \<Rightarrow> jsval \<Rightarrow> store \<Rightarrow> ('t, 'u, 'z) runtime_scheme
     \<Rightarrow> outcome \<times> store \<times> ('t, 'u, 'z) runtime_scheme" where
  "setLoading fenv loading st w =
     setState fenv (JObj [(''ui'', JObj [(''loading'', loading)])])
       (JObj [(''type'', JStr ''SET_LOADING''), (''payload'', loading)]) st w"

text \<open>
  The cache. \<^verbatim>\<open>this.state.cache\<close> and \<^verbatim>\<open>this.state.cacheTimestamps\<close> are \<^verbatim>\<open>Map\<close>
  instances; a method call on anything else throws a TypeError. \<open>map_method field f\<close> is a
  mutating method call on the map held in \<open>field\<close>.
\<close>

definition map_method ::
  "string \<Rightarrow> ((string \<times> jsval) list \<Rightarrow> (string \<times> jsval) list) \<Rightarrow> store \<Rightarrow> outcome \<times> store" where
  "map_method field f st =
     (case get_prop (state st) field of
        JMap m \<Rightarrow> (Returned JUndefined, st\<lparr>state := set_prop field (JMap (f m)) (state st)\<rparr>)
      | _ \<Rightarrow> (Threw (JErr ''TypeError: not a function''), st))"

definition removeCache :: "string \<Rightarrow> store \<Rightarrow> outcome \<times> store" where
  "removeCache key st =
     (case map_method ''cache'' (AList.delete key) st of
        (Threw error, st1) \<Rightarrow> (Threw error, st1)
      | (Returned r, st1) \<Rightarrow> map_method ''cacheTimestamps'' (AList.delete key) st1)"

text \<open>The delay \<^verbatim>\<open>setTimeout\<close> makes of its second argument.\<close>

fun delay_of :: "jsval \<Rightarrow> nat" where
  "delay_of (JNum n) = nat n"
| "delay_of v = 0"

text \<open>\<^verbatim>\<open>setCache(key, data, ttl = null)\<close>, at clock reading \<open>now\<close>.\<close>

definition setCache ::
  "string \<Rightarrow> jsval \<Rightarrow> jsval \<Rightarrow> nat \<Rightarrow> store \<Rightarrow> (store_task, 'u, 'z) runtime_scheme
     \<Rightarrow> outcome \<times> store \<times> (store_task, 'u, 'z) runtime_scheme" where
  "setCache key data ttl now st w =
     (case map_method ''cache'' (AList.update key data) st of
        (Threw error, st1) \<Rightarrow> (Threw error, st1, w)
      | (Returned r, st1) \<Rightarrow>
          (case map_method ''cacheTimestamps'' (AList.update key (JNum (int now))) st1 of
             (Threw error, st2) \<Rightarrow> (Threw error, st2, w)
           | (Returned r', st2) \<Rightarrow>
               (Returned JUndefined, st2,
                if truthy ttl then snd (setTimeout (RemoveCache key) (delay_of ttl) now w) else w)))"

text \<open>
  The numbers the freshness test \<^verbatim>\<open>Date.now() - timestamp < currentTTL\<close> compares. A value
  without a number here stands for \<^verbatim>\<open>NaN\<close>, which makes the comparison false.
\<close>

fun to_number :: "jsval \<Rightarrow> int option" where
  "to_number (JNum n) = Some n"
| "to_number JNull = Some 0"
| "to_number (JBool b) = Some (if b then 1 else 0)"
| "to_number v = None"

definition fresh :: "nat \<Rightarrow> jsval \<Rightarrow> jsval \<Rightarrow> bool" where
  "fresh now timestamp currentTTL =
     (case (to_number timestamp, to_number currentTTL) of
        (Some t, Some ttl) \<Rightarrow> int now - t < ttl
      | _ \<Rightarrow> False)"

text \<open>
  \<^verbatim>\<open>getCache(key, fetcher = null, ttl = null)\<close>, called at clock reading \<open>now\<close>; \<open>later\<close> is
  the clock reading when the awaited fetcher has settled. The outcome is that of the promise
  the method returns.
\<close>

definition fetch_miss ::
  "(store, 'u) fenv \<Rightarrow> string \<Rightarrow> jsval \<Rightarrow> jsval \<Rightarrow> nat \<Rightarrow> store
     \<Rightarrow> (store_task, 'u, 'z) runtime_scheme
     \<Rightarrow> outcome \<times> store \<times> (store_task, 'u, 'z) runtime_scheme" where
  "fetch_miss fenv key fetcher currentTTL later st w =
     (case fetcher of
        JFn f \<Rightarrow>
          (case call_function fenv f JUndefined [] st w of
             (Returned data, w1) \<Rightarrow>
               (case setCache key data currentTTL later st w1 of
                  (Threw error, st', w') \<Rightarrow> (Threw error, st', w')
                | (Returned r, st', w') \<Rightarrow> (Returned data, st', w'))
           | (Threw error, w1) \<Rightarrow> (Threw error, st, w1))
      | _ \<Rightarrow> (Returned JNull, st, w))"

definition getCache ::
  "(store, 'u) fenv \<Rightarrow> string \<Rightarrow> jsval \<Rightarrow> jsval \<Rightarrow> nat \<Rightarrow> nat \<Rightarrow> store
     \<Rightarrow> (store_task, 'u, 'z) runtime_scheme
     \<Rightarrow> outcome \<times> store \<times> (store_task, 'u, 'z) runtime_scheme" where
  "getCache fenv key fetcher ttl now later st w =
     (let currentTTL = (if truthy ttl then ttl else get_prop (state st) ''cacheTTL'')
      in case get_prop (state st) ''cacheTimestamps'' of
           JMap timestamps \<Rightarrow>
             (let timestamp = (case map_of timestamps key of Some t \<Rightarrow> t | None \<Rightarrow> JUndefined)
              in case get_prop (state st) ''cache'' of
                   JMap cache \<Rightarrow>
                     (case map_of cache key of
                        Some v \<Rightarrow>
                          (if truthy timestamp
                           then (if fresh now timestamp currentTTL then (Returned v, st, w)
                                 else (case removeCache key st of
                                         (Threw error, st1) \<Rightarrow> (Threw error, st1, w)
                                       | (Returned r, st1) \<Rightarrow>
                                           fetch_miss fenv key fetcher currentTTL later st1 w))
                           else fetch_miss fenv key fetcher currentTTL later st w)
                      | None \<Rightarrow> fetch_miss fenv key fetcher currentTTL later st w)
                 | _ \<Rightarrow> (Threw (JErr ''TypeError: not a function''), st, w))
         | _ \<Rightarrow> (Threw (JErr ''TypeError: not a function''), st, w))"

text \<open>The timer task \<^verbatim>\<open>() => { this.removeCache(key); }\<close>.\<close>

fun run_store_task ::
  "nat \<Rightarrow> store_task \<Rightarrow> store \<Rightarrow> (store_task, 'u, 'z) runtime_scheme
     \<Rightarrow> store \<times> (store_task, 'u, 'z) runtime_scheme" where
  "run_store_task h (RemoveCache key) st w = (snd (removeCache key st), w)"


section \<open>Observing a dispatch\<close>

definition traced :: "('o, 'u) fenv \<Rightarrow> ('o, 'u \<times> (nat \<times> outcome) list) fenv" where
  "traced fenv n this args view s =
     (case fenv n this args view (fst s) of (out, u) \<Rightarrow> (out, (u, snd s @ [(n, out)])))"

fun user_fns :: "jsval list \<Rightarrow> nat list" where
  "user_fns [] = []"
| "user_fns (JFn (UserFn n) # cs) = n # user_fns cs"
| "user_fns (c # cs) = user_fns cs"

record registration =
  reg_event :: string
  reg_callback :: jsval
  reg_options :: listen_options
  reg_now :: nat
  reg_rnd :: nat

fun subscribe_all :: "registration list \<Rightarrow> bus \<Rightarrow> bus" where
  "subscribe_all [] b = b"
| "subscribe_all (r # rs) b =
     subscribe_all rs (snd (on (reg_event r) (reg_callback r) (reg_options r) (reg_now r) (reg_rnd r) b))"

definition listener_of :: "registration \<Rightarrow> listener" where
  "listener_of r = new_listener (reg_event r) (reg_callback r) (reg_options r) (reg_now r) (reg_rnd r)"

definition listeners_of :: "bus \<Rightarrow> string \<Rightarrow> listener list" where
  "listeners_of b E = (case map_of (events b) E of None \<Rightarrow> [] | Some ls \<Rightarrow> ls)"

definition desc :: "listener list \<Rightarrow> bool" where
  "desc ls = sorted_wrt (\<lambda>a b. priority a \<ge> priority b) ls"

definition invocations :: "('t, 'u \<times> (nat \<times> outcome) list) runtime \<Rightarrow> nat list" where
  "invocations w = map fst (snd (app w))"

definition dispatch ::
  "(bus, 'u) fenv \<Rightarrow> string \<Rightarrow> jsval \<Rightarrow> bus \<Rightarrow> ('t, 'u) runtime
     \<Rightarrow> jsval list \<times> bus \<times> ('t, 'u) runtime" where
  "dispatch fenv E pe b w =
     (case map_of (events b) E of
        Some ls \<Rightarrow> emit_listeners fenv E pe ls [] b w
      | None \<Rightarrow> ([], b, w))"

definition trace_of :: "('t, 'u \<times> (nat \<times> outcome) list) runtime \<Rightarrow> (nat \<times> outcome) list" where
  "trace_of w = snd (app w)"




definition idle :: "'u \<Rightarrow> (bus_task, 'u) runtime" where
  "idle u = \<lparr>timers = [], next_timer = 0, promises = Map.empty, next_promise = 0, app = u\<rparr>"

definition failing :: "(bus, 'u) fenv" where
  "failing n this args view u = (Threw (JErr ''boom''), u)"

definition once_thrower :: bus where
  "once_thrower = snd (once' ''x'' (JFn (UserFn 7)) no_options 0 0 EventBus_new)"

definition first_publish ::
  "jsval list \<times> bus \<times> (bus_task, unit \<times> (nat \<times> outcome) list) runtime" where
  "first_publish = emit (traced failing) ''x'' JNull (JObj []) 1 0 once_thrower (idle ((), []))"

definition second_publish ::
  "jsval list \<times> bus \<times> (bus_task, unit \<times> (nat \<times> outcome) list) runtime" where
  "second_publish =
     emit (traced failing) ''x'' JNull (JObj []) 2 0 (fst (snd first_publish)) (snd (snd first_publish))"

record publish =
  pub_event :: string
  pub_data :: jsval
  pub_options :: jsval
  pub_now :: nat
  pub_rnd :: nat

definition event_of :: "publish \<Rightarrow> jsval" where
  "event_of c = make_event (pub_event c) (pub_data c) (pub_options c) (pub_now c) (pub_rnd c)"

fun publish_all ::
  "(bus, 'u) fenv \<Rightarrow> publish list \<Rightarrow> bus \<Rightarrow> ('t, 'u) runtime \<Rightarrow> bus \<times> ('t, 'u) runtime" where
  "publish_all fenv [] b w = (b, w)"
| "publish_all fenv (c # cs) b w =
     (case emit fenv (pub_event c) (pub_data c) (pub_options c) (pub_now c) (pub_rnd c) b w of
        (results, b', w') \<Rightarrow> publish_all fenv cs b' w')"

inductive reachable :: "(bus, 'u) fenv \<Rightarrow> bus \<times> (bus_task, 'u) runtime \<Rightarrow> bool"
  for fenv :: "(bus, 'u) fenv" where
  new: "reachable fenv (EventBus_new, w)"
| on: "reachable fenv (b, w) \<Longrightarrow> reachable fenv (snd (on eventName cb options now rnd b), w)"
| once': "reachable fenv (b, w) \<Longrightarrow> reachable fenv (snd (once' eventName cb options now rnd b), w)"
| off: "reachable fenv (b, w) \<Longrightarrow> reachable fenv (off eventName sel b, w)"
| onAny: "reachable fenv (b, w) \<Longrightarrow> reachable fenv (snd (onAny cb now rnd b), w)"
| unsubscribe: "reachable fenv (b, w) \<Longrightarrow> reachable fenv (unsubscribe u b, w)"
| use: "reachable fenv (b, w) \<Longrightarrow> use mw b = Inr b' \<Longrightarrow> reachable fenv (b', w)"
| emit: "reachable fenv (b, w) \<Longrightarrow> emit fenv eventName data options now rnd b w = (results, b', w')
         \<Longrightarrow> reachable fenv (b', w')"
| waitFor: "reachable fenv (b, w) \<Longrightarrow> waitFor eventName timeout now rnd b w = (p, b', w')
         \<Longrightarrow> reachable fenv (b', w')"
| timers: "reachable fenv (b, w) \<Longrightarrow> run_due run_bus_task now b w = (b', w')
         \<Longrightarrow> reachable fenv (b', w')"
| setDebug: "reachable fenv (b, w) \<Longrightarrow> reachable fenv (setDebug enabled b, w)"
| clear: "reachable fenv (b, w) \<Longrightarrow> reachable fenv (clear b, w)"
| destroy: "reachable fenv (b, w) \<Longrightarrow> reachable fenv (destroy b, w)"
| app: "reachable fenv (b, w) \<Longrightarrow> reachable fenv (b, w\<lparr>app := u\<rparr>)"

definition bounded :: "bus \<Rightarrow> bool" where
  "bounded b \<longleftrightarrow> length (history b) \<le> maxHistorySize b \<and> maxHistorySize b = 100"

definition tick :: "nat \<Rightarrow> publish" where
  "tick i = \<lparr>pub_event = ''tick'', pub_data = JNull, pub_options = JObj [], pub_now = i, pub_rnd = 0\<rparr>"

definition ticks :: "nat \<Rightarrow> publish list" where
  "ticks n = map tick [0..<n]"

definition full_bus :: bus where
  "full_bus = fst (publish_all failing (ticks 100) EventBus_new (idle ()))"

section \<open>Observing the state tree\<close>

fun is_plain_object :: "jsval \<Rightarrow> bool" where
  "is_plain_object (JObj kvs) = True"
| "is_plain_object v = False"




definition processed_state ::
  "(store, 'u) fenv \<Rightarrow> jsval \<Rightarrow> jsval \<Rightarrow> store \<Rightarrow> ('t, 'u, 'z) runtime_scheme \<Rightarrow> jsval" where
  "processed_state fenv newState action st w =
     fst (apply_middleware fenv (store_middleware st) newState (JObj (own_entries (state st)))
            action st w)"

definition quiet :: "(store, unit) fenv" where
  "quiet n this args view u = (Returned JUndefined, u)"

definition empty_browser :: "(store_task, unit) browser" where
  "empty_browser =
     \<lparr>timers = [], next_timer = 0, promises = Map.empty, next_promise = 0, app = (),
      localStorage = Map.empty\<rparr>"

definition no_json :: "string \<Rightarrow> jsval option" where
  "no_json text = None"

definition new_store :: store where
  "new_store = AppStore_new no_json ''2024-01-01'' ''09:00'' empty_browser"




definition map_field :: "string \<Rightarrow> store \<Rightarrow> (string \<times> jsval) list option" where
  "map_field field st = (case get_prop (state st) field of JMap m \<Rightarrow> Some m | _ \<Rightarrow> None)"

definition cache_ok :: "store \<Rightarrow> bool" where
  "cache_ok st \<longleftrightarrow>
     is_plain_object (state st) \<and> map_field ''cache'' st \<noteq> None \<and>
     map_field ''cacheTimestamps'' st \<noteq> None"

definition cached :: "string \<Rightarrow> store \<Rightarrow> jsval option" where
  "cached key st = (case map_field ''cache'' st of Some m \<Rightarrow> map_of m key | None \<Rightarrow> None)"

definition cached_at :: "string \<Rightarrow> store \<Rightarrow> jsval option" where
  "cached_at key st =
     (case map_field ''cacheTimestamps'' st of Some m \<Rightarrow> map_of m key | None \<Rightarrow> None)"

definition timers_ok :: "('t, 'u, 'z) runtime_scheme \<Rightarrow> bool" where
  "timers_ok w \<longleftrightarrow>
     distinct (map fst (timers w)) \<and> (\<forall>h \<in> set (map fst (timers w)). h < next_timer w)"

definition cached_store :: "outcome \<times> store \<times> (store_task, unit) browser" where
  "cached_store = setCache ''k'' (JStr ''v'') (JNum 20) 1000 new_store empty_browser"

definition expired_store :: "store \<times> (store_task, unit) browser" where
  "expired_store = run_due run_store_task 1025 (fst (snd cached_store)) (snd (snd cached_store))"

section \<open>Observing \<^verbatim>\<open>waitFor\<close>\<close>









definition timeout_error :: "string \<Rightarrow> nat \<Rightarrow> jsval" where
  "timeout_error E timeout =
     JErr (''Event '' @ E @ '' timeout after '' @ string_of_nat timeout @ ''ms'')"

section \<open>Properties of the EventBus\<close>

lemma insert_by_set: "set (insert_by cmp x ys) = insert x (set ys)"
  by (induction ys) auto

lemma insert_by_desc: "desc ys \<Longrightarrow> desc (insert_by by_priority x ys)"
  unfolding desc_def
  by (induction ys) (auto simp: by_priority_def insert_by_set)

lemma insert_by_filter:
  "desc ys \<Longrightarrow> filter (\<lambda>l. priority l = p) (insert_by by_priority x ys)
     = filter (\<lambda>l. priority l = p) (ys @ [x])"
  unfolding desc_def
proof (induction ys)
  case Nil then show ?case by simp
next
  case (Cons y ys)
  show ?case
  proof (cases "by_priority y x \<le> 0")
    case True
    with Cons show ?thesis by simp
  next
    case False
    then have lt: "priority y < priority x" by (simp add: by_priority_def)
    have "\<forall>z \<in> set (y # ys). priority z < priority x"
      using Cons.prems lt by auto
    then have "filter (\<lambda>l. priority l = p) (y # ys) = [] \<or> priority x \<noteq> p"
      by (auto simp: filter_empty_conv)
    then show ?thesis using False by (auto simp: filter_empty_conv)
  qed
qed

lemma js_sort_snoc: "js_sort cmp (xs @ [x]) = insert_by cmp x (js_sort cmp xs)"
  by (simp add: js_sort_def)

lemma js_sort_desc: "desc (js_sort by_priority xs)"
  by (induction xs rule: rev_induct) (simp_all add: js_sort_snoc insert_by_desc, simp add: js_sort_def desc_def)

lemma js_sort_filter:
  "filter (\<lambda>l. priority l = p) (js_sort by_priority xs) = filter (\<lambda>l. priority l = p) xs"
  by (induction xs rule: rev_induct) (simp add: js_sort_def, simp add: js_sort_snoc insert_by_filter js_sort_desc)

lemma js_sort_mset: "mset (js_sort cmp xs) = mset xs"
proof (induction xs rule: rev_induct)
  case Nil show ?case by (simp add: js_sort_def)
next
  case (snoc x xs)
  have "mset (insert_by cmp x ys) = add_mset x (mset ys)" for ys
    by (induction ys) auto
  with snoc show ?case by (simp add: js_sort_snoc)
qed

lemma listeners_of_on:
  "listeners_of (snd (on E cb opts now rnd b)) E' =
     (if E' = E then js_sort by_priority (listeners_of b E @ [new_listener E cb opts now rnd])
      else listeners_of b E')"
  by (simp add: on_def listeners_of_def Let_def update_conv')

lemma listeners_of_subscribe_all:
  "listeners_of (subscribe_all regs b) E =
     foldl (\<lambda>ls r. js_sort by_priority (ls @ [listener_of r])) (listeners_of b E)
       (filter (\<lambda>r. reg_event r = E) regs)"
  by (induction regs arbitrary: b) (simp_all add: listeners_of_on listener_of_def)

lemma fold_sorted:
  "desc ls0 \<Longrightarrow>
   desc (foldl (\<lambda>ls r. js_sort by_priority (ls @ [listener_of r])) ls0 rs) \<and>
   mset (foldl (\<lambda>ls r. js_sort by_priority (ls @ [listener_of r])) ls0 rs)
     = mset (ls0 @ map listener_of rs) \<and>
   (\<forall>p. filter (\<lambda>l. priority l = p) (foldl (\<lambda>ls r. js_sort by_priority (ls @ [listener_of r])) ls0 rs)
        = filter (\<lambda>l. priority l = p) (ls0 @ map listener_of rs))"
  by (induction rs arbitrary: ls0) (simp_all add: js_sort_desc js_sort_filter js_sort_mset)

lemma sort_key_map: "sort_key f (map g xs) = map g (sort_key (\<lambda>x. f (g x)) xs)"
proof (induction xs)
  case Nil show ?case by simp
next
  case (Cons x xs)
  have "insort_key f (g x) (map g ys) = map g (insort_key (\<lambda>x. f (g x)) x ys)" for ys
    by (induction ys) auto
  with Cons show ?case by simp
qed

lemma desc_sorted: "desc ls \<longleftrightarrow> sorted (map (\<lambda>l. - priority l) ls)"
  by (simp add: desc_def sorted_wrt_map)

lemma listeners_sorted:
  "listeners_of (subscribe_all regs EventBus_new) E =
     map listener_of (sort_key (\<lambda>r. - opt_priority (reg_options r)) (filter (\<lambda>r. reg_event r = E) regs))"
proof -
  let ?mine = "filter (\<lambda>r. reg_event r = E) regs"
  let ?L = "foldl (\<lambda>ls r. js_sort by_priority (ls @ [listener_of r])) [] ?mine"
  have e: "listeners_of (subscribe_all regs EventBus_new) E = ?L"
    by (simp add: listeners_of_subscribe_all) (simp add: listeners_of_def EventBus_new_def)
  have d: "desc []" by (simp add: desc_def)
  note f = fold_sorted[OF d, of ?mine]
  have "sort_key (\<lambda>l. - priority l) (map listener_of ?mine) = ?L"
  proof (rule properties_for_sort_key)
    show "mset ?L = mset (map listener_of ?mine)" using f by simp
    show "sorted (map (\<lambda>l. - priority l) ?L)" using f by (simp add: desc_sorted)
    fix k assume "k \<in> set ?L"
    have "filter (\<lambda>l. priority l = priority k) ?L = filter (\<lambda>l. priority l = priority k) (map listener_of ?mine)"
      using f by simp
    then show "filter (\<lambda>x. - priority k = - priority x) ?L = filter (\<lambda>x. - priority k = - priority x) (map listener_of ?mine)"
      by (simp add: eq_commute)
  qed
  then show ?thesis
    by (simp add: e sort_key_map listener_of_def new_listener_def)
qed

lemma app_clearTimeout [simp]: "app (clearTimeout h w) = app w"
  by (simp add: clearTimeout_def)

lemma app_settle [simp]: "app (settle p st w) = app w"
  by (simp add: settle_def)

lemma emit_listeners_Returned:
  "executeListener fenv (callback l) (context' l) ev b w = (Returned v, w1) \<Longrightarrow>
   emit_listeners fenv E ev (l # ls) results b w =
     emit_listeners fenv E ev ls (results @ [v]) (if once l then off E (JStr (lid l)) b else b) w1"
  by simp

lemma emit_listeners_Threw:
  "executeListener fenv (callback l) (context' l) ev b w = (Threw e, w1) \<Longrightarrow>
   emit_listeners fenv E ev (l # ls) results b w =
     emit_listeners fenv E ev ls (results @ [JObj [(''error'', e)]]) b w1"
  by simp

lemma call_function_traced:
  "call_function (traced fenv) f this args view w = (out, w') \<Longrightarrow>
   invocations w' = invocations w @ user_fns [JFn f]"
  by (cases f) (auto simp: traced_def invocations_def split: prod.splits)

lemma executeListener_traced:
  "executeListener (traced fenv) cb ctx ev b w = (out, w') \<Longrightarrow>
   invocations w' = invocations w @ user_fns [cb]"
  by (cases cb) (auto simp: executeListener_def Let_def dest: call_function_traced split: if_splits)

lemma user_fns_Cons: "user_fns (c # cs) = user_fns [c] @ user_fns cs"
  by (induction "c # cs" rule: user_fns.induct) auto

lemma emit_listeners_traced:
  "emit_listeners (traced fenv) E ev ls results b w = (results', b', w') \<Longrightarrow>
   invocations w' = invocations w @ user_fns (map callback ls)"
proof (induction ls arbitrary: results b w)
  case Nil then show ?case by simp
next
  case (Cons l ls)
  obtain out w1 where ex: "executeListener (traced fenv) (callback l) (context' l) ev b w = (out, w1)"
    by (cases "executeListener (traced fenv) (callback l) (context' l) ev b w")
  have i1: "invocations w1 = invocations w @ user_fns [callback l]"
    by (rule executeListener_traced[OF ex])
  show ?case
  proof (cases out)
    case (Returned v)
    with Cons.prems ex have
      "emit_listeners (traced fenv) E ev ls (results @ [v])
         (if once l then off E (JStr (lid l)) b else b) w1 = (results', b', w')"
      by (simp only: emit_listeners_Returned)
    from Cons.IH[OF this] i1 show ?thesis using user_fns_Cons[of "callback l" "map callback ls"] by simp
  next
    case (Threw e)
    with Cons.prems ex have
      "emit_listeners (traced fenv) E ev ls (results @ [JObj [(''error'', e)]]) b w1 = (results', b', w')"
      by (simp only: emit_listeners_Threw)
    from Cons.IH[OF this] i1 show ?thesis using user_fns_Cons[of "callback l" "map callback ls"] by simp
  qed
qed

lemma off_frame [simp]:
  "history (off E sel b) = history b"
  "maxHistorySize (off E sel b) = maxHistorySize b"
  "wildcardListeners (off E sel b) = wildcardListeners b"
  "middleware (off E sel b) = middleware b"
  "debug (off E sel b) = debug b"
  by (simp_all add: off_def Let_def split: option.splits prod.splits)

lemma emit_listeners_frame:
  "emit_listeners fenv E ev ls results b w = (results', b', w') \<Longrightarrow>
   history b' = history b \<and> maxHistorySize b' = maxHistorySize b \<and>
   wildcardListeners b' = wildcardListeners b \<and> middleware b' = middleware b \<and>
   debug b' = debug b"
proof (induction ls arbitrary: results b w)
  case Nil then show ?case by simp
next
  case (Cons l ls)
  obtain out w1 where ex: "executeListener fenv (callback l) (context' l) ev b w = (out, w1)"
    by (cases "executeListener fenv (callback l) (context' l) ev b w")
  show ?case
  proof (cases out)
    case (Returned v)
    with Cons.prems ex have
      "emit_listeners fenv E ev ls (results @ [v])
         (if once l then off E (JStr (lid l)) b else b) w1 = (results', b', w')"
      by (simp only: emit_listeners_Returned)
    from Cons.IH[OF this] show ?thesis by simp
  next
    case (Threw e)
    with Cons.prems ex have
      "emit_listeners fenv E ev ls (results @ [JObj [(''error'', e)]]) b w1 = (results', b', w')"
      by (simp only: emit_listeners_Threw)
    from Cons.IH[OF this] show ?thesis by simp
  qed
qed

lemma subscribe_all_frame:
  "middleware (subscribe_all regs b) = middleware b \<and>
   wildcardListeners (subscribe_all regs b) = wildcardListeners b"
  by (induction regs arbitrary: b) (simp_all add: on_def Let_def)

lemma events_addToHistory [simp]:
  "events (addToHistory ev b) = events b"
  "middleware (addToHistory ev b) = middleware b"
  "wildcardListeners (addToHistory ev b) = wildcardListeners b"
  "maxHistorySize (addToHistory ev b) = maxHistorySize b"
  "debug (addToHistory ev b) = debug b"
  by (simp_all add: addToHistory_def Let_def)

lemma emit_cases:
  assumes "emit fenv E data options now rnd b w = (results, b', w')"
  obtains pe w1 r1 w2 where
    "run_middleware fenv (middleware b) (make_event E data options now rnd)
       (addToHistory (make_event E data options now rnd) b) w = (pe, w1)"
    "dispatch fenv E pe (addToHistory (make_event E data options now rnd) b) w1 = (r1, b', w2)"
    "emit_wildcards fenv pe (wildcardListeners b) r1 b' w2 = (results, w')"
proof -
  let ?ev = "make_event E data options now rnd"
  let ?b1 = "addToHistory ?ev b"
  obtain pe w1 where m: "run_middleware fenv (middleware b) ?ev ?b1 w = (pe, w1)"
    by (cases "run_middleware fenv (middleware b) ?ev ?b1 w")
  obtain r1 b2 w2 where d: "dispatch fenv E pe ?b1 w1 = (r1, b2, w2)"
    by (cases "dispatch fenv E pe ?b1 w1")
  obtain r2 w3 where wc: "emit_wildcards fenv pe (wildcardListeners b2) r1 b2 w2 = (r2, w3)"
    by (cases "emit_wildcards fenv pe (wildcardListeners b2) r1 b2 w2")
  have "emit fenv E data options now rnd b w = (r2, b2, w3)"
    using m d wc by (simp add: emit_def Let_def dispatch_def)
  with assms have eq: "r2 = results" "b2 = b'" "w3 = w'" by simp_all
  have "wildcardListeners b2 = wildcardListeners b"
    using d by (auto simp: dispatch_def split: option.splits dest: emit_listeners_frame)
  with m d wc eq that show thesis by simp
qed

lemma emit_fresh_traced:
  assumes "emit (traced fenv) E data options now rnd (subscribe_all regs EventBus_new) w = (results, b', w')"
  shows "invocations w' = invocations w @ user_fns (map callback (listeners_of (subscribe_all regs EventBus_new) E))"
proof -
  let ?b = "subscribe_all regs EventBus_new"
  have m: "middleware ?b = []" and wl: "wildcardListeners ?b = []"
    using subscribe_all_frame[of regs EventBus_new] by (simp_all add: EventBus_new_def)
  from assms obtain pe w1 r1 w2 where
    a: "run_middleware (traced fenv) (middleware ?b) (make_event E data options now rnd)
       (addToHistory (make_event E data options now rnd) ?b) w = (pe, w1)" and
    b: "dispatch (traced fenv) E pe (addToHistory (make_event E data options now rnd) ?b) w1 = (r1, b', w2)" and
    c: "emit_wildcards (traced fenv) pe (wildcardListeners ?b) r1 b' w2 = (results, w')"
    by (rule emit_cases)
  from a m have "w1 = w" by simp
  moreover from c wl have "w' = w2" by simp
  moreover from b have "invocations w2 = invocations w1 @ user_fns (map callback (listeners_of ?b E))"
    by (auto simp: dispatch_def listeners_of_def split: option.splits dest: emit_listeners_traced)
  ultimately show ?thesis by simp
qed

lemma trace_clearTimeout [simp]: "trace_of (clearTimeout h w) = trace_of w"
  by (simp add: trace_of_def)

lemma trace_settle [simp]: "trace_of (settle p st w) = trace_of w"
  by (simp add: trace_of_def)



















lemma once_thrower_eval:
  "once_thrower = EventBus_new\<lparr>events := [(''x'', [\<lparr>callback = JFn (UserFn 7), once = True, priority = 0,
       context' = JNull, lid = ''x_0_0''\<rparr>])]\<rparr>"
  by (simp add: once_thrower_def once'_def on_def no_options_def new_listener_def fresh_id_def
      string_of_nat.simps js_sort_def EventBus_new_def)

lemma history_emit:
  "emit fenv E data options now rnd b w = (results, b', w') \<Longrightarrow>
   history b' = history (addToHistory (make_event E data options now rnd) b) \<and>
   maxHistorySize b' = maxHistorySize b"
  by (erule emit_cases) (auto simp: dispatch_def split: option.splits dest: emit_listeners_frame)

lemma bounded_addToHistory: "bounded b \<Longrightarrow> bounded (addToHistory ev b)"
  by (auto simp: bounded_def addToHistory_def Let_def)

lemma run_bus_task_frame:
  "run_bus_task h task b w = (b1, w1) \<Longrightarrow>
   history b1 = history b \<and> maxHistorySize b1 = maxHistorySize b"
  by (cases task) auto

lemma fire_all_frame:
  "fire_all run_bus_task ts b w = (b', w') \<Longrightarrow>
   history b' = history b \<and> maxHistorySize b' = maxHistorySize b"
proof (induction ts arbitrary: b w)
  case Nil then show ?case by simp
next
  case (Cons t ts)
  obtain h due task where t: "t = (h, due, task)" by (cases t)
  show ?case
  proof (cases "h \<in> set (map fst (timers w))")
    case False
    with Cons t show ?thesis by simp
  next
    case True
    obtain b1 w1 where r: "run_bus_task h task b (clearTimeout h w) = (b1, w1)"
      by (cases "run_bus_task h task b (clearTimeout h w)")
    with Cons.prems True t have "fire_all run_bus_task ts b1 w1 = (b', w')" by simp
    from Cons.IH[OF this] run_bus_task_frame[OF r] show ?thesis by simp
  qed
qed

lemma reachable_bounded: "reachable fenv s \<Longrightarrow> bounded (fst s)"
proof (induction rule: reachable.induct)
  case (emit b w eventName data options now rnd results b' w')
  then show ?case
    using bounded_addToHistory[of b "make_event eventName data options now rnd"]
    by (auto simp: bounded_def dest!: history_emit)
next
  case (timers b w now b' w')
  then show ?case by (auto simp: run_due_def bounded_def dest: fire_all_frame)
next
  case (unsubscribe b w u)
  then show ?case by (cases u) (auto simp: bounded_def Let_def)
qed (auto simp: bounded_def EventBus_new_def on_def once'_def Let_def onAny_def use_def
      setDebug_def clear_def destroy_def waitFor_def new_promise_def setTimeout_def
      split: jsval.splits prod.splits)

lemma history_addToHistory:
  "length (history b) \<le> maxHistorySize b \<Longrightarrow>
   history (addToHistory ev b) =
     drop (length (history b @ [ev]) - maxHistorySize b) (history b @ [ev])"
  by (cases "history b") (auto simp: addToHistory_def Let_def drop_Cons' not_less le_Suc_eq)

lemma drop_window:
  "drop (length (drop (length h - m) h @ r) - m) (drop (length h - m) h @ r)
     = drop (length (h @ r) - m) (h @ r)"
proof (cases "length h \<le> m")
  case True then show ?thesis by simp
next
  case False
  have "drop (length h - m) h @ r = drop (length h - m) (h @ r)" by simp
  moreover have "length (drop (length h - m) (h @ r)) - m + (length h - m) = length (h @ r) - m"
    using False by simp
  ultimately show ?thesis by (simp only: drop_drop)
qed

lemma history_publish_all:
  "publish_all fenv cs b w = (b', w') \<Longrightarrow> length (history b) \<le> maxHistorySize b \<Longrightarrow>
   history b' = drop (length (history b @ map event_of cs) - maxHistorySize b)
                  (history b @ map event_of cs) \<and>
   maxHistorySize b' = maxHistorySize b"
proof (induction cs arbitrary: b w)
  case Nil then show ?case by simp
next
  case (Cons c cs)
  let ?ev = "event_of c"
  obtain results b1 w1 where
    e: "emit fenv (pub_event c) (pub_data c) (pub_options c) (pub_now c) (pub_rnd c) b w = (results, b1, w1)"
    by (cases "emit fenv (pub_event c) (pub_data c) (pub_options c) (pub_now c) (pub_rnd c) b w")
  from history_emit[OF e] have
    h1: "history b1 = history (addToHistory ?ev b)" and m1: "maxHistorySize b1 = maxHistorySize b"
    by (simp_all add: event_of_def)
  have h1': "history b1 = drop (length (history b @ [?ev]) - maxHistorySize b) (history b @ [?ev])"
    using h1 history_addToHistory[OF Cons.prems(2)] by simp
  have le1: "length (history b1) \<le> maxHistorySize b1"
    using h1' m1 Cons.prems(2) by simp
  from Cons.prems e have "publish_all fenv cs b1 w1 = (b', w')" by simp
  from Cons.IH[OF this le1] have
    ih: "history b' = drop (length (history b1 @ map event_of cs) - maxHistorySize b1)
                  (history b1 @ map event_of cs)" and m: "maxHistorySize b' = maxHistorySize b1"
    by simp_all
  let ?h = "history b @ [?ev]" and ?r = "map event_of cs" and ?m = "maxHistorySize b"
  have "drop (length (drop (length ?h - ?m) ?h @ ?r) - ?m) (drop (length ?h - ?m) ?h @ ?r)
          = drop (length (?h @ ?r) - ?m) (?h @ ?r)"
    by (rule drop_window)
  with ih h1' m m1 show ?case by simp
qed

lemma tick_distinct: "event_of (tick 0) = event_of (tick i) \<longleftrightarrow> i = 0"
  by (auto simp: event_of_def tick_def make_event_def assign_def)

lemma ticks_Suc: "ticks (Suc n) = tick 0 # map tick [1..<Suc n]"
  by (simp add: ticks_def upt_conv_Cons del: upt_Suc)

lemma emit_no_listeners:
  assumes "\<not> hasEvent E b"
  shows "fst (snd (emit fenv E data options now rnd b w))
           = addToHistory (make_event E data options now rnd) b"
    and "wildcardListeners b = [] \<Longrightarrow> fst (emit fenv E data options now rnd b w) = []"
proof -
  obtain results b' w' where e: "emit fenv E data options now rnd b w = (results, b', w')"
    by (cases "emit fenv E data options now rnd b w")
  let ?ev = "make_event E data options now rnd"
  from e obtain pe w1 r1 w2 where
    d: "dispatch fenv E pe (addToHistory ?ev b) w1 = (r1, b', w2)" and
    c: "emit_wildcards fenv pe (wildcardListeners b) r1 b' w2 = (results, w')"
    by (rule emit_cases)
  from assms have "map_of (events b) E = None \<or> map_of (events b) E = Some []"
    by (auto simp: hasEvent_def split: option.splits)
  with d have r: "r1 = []" "b' = addToHistory ?ev b"
    by (auto simp: dispatch_def)
  then show "fst (snd (emit fenv E data options now rnd b w)) = addToHistory ?ev b"
    by (simp add: e)
  assume "wildcardListeners b = []"
  with c r show "fst (emit fenv E data options now rnd b w) = []" by (simp add: e)
qed

lemma publish_all_quiet:
  "publish_all fenv cs b w = (b', w') \<Longrightarrow> events b = [] \<Longrightarrow> wildcardListeners b = [] \<Longrightarrow>
   events b' = [] \<and> wildcardListeners b' = []"
proof (induction cs arbitrary: b w)
  case Nil then show ?case by simp
next
  case (Cons c cs)
  obtain results b1 w1 where
    e: "emit fenv (pub_event c) (pub_data c) (pub_options c) (pub_now c) (pub_rnd c) b w = (results, b1, w1)"
    by (cases "emit fenv (pub_event c) (pub_data c) (pub_options c) (pub_now c) (pub_rnd c) b w")
  have "\<not> hasEvent (pub_event c) b" using Cons.prems(2) by (simp add: hasEvent_def)
  from emit_no_listeners(1)[OF this, of fenv "pub_data c" "pub_options c" "pub_now c" "pub_rnd c" w] e
  have "b1 = addToHistory (event_of c) b" by (simp add: event_of_def)
  with Cons.prems have "events b1 = []" "wildcardListeners b1 = []" by simp_all
  moreover from Cons.prems e have "publish_all fenv cs b1 w1 = (b', w')" by simp
  ultimately show ?case using Cons.IH by blast
qed

section \<open>Properties of the AppStore\<close>







lemma state_setState:
  "state (fst (snd (setState fenv newState action st w)))
     = mergeDeep (state st) (processed_state fenv newState action st w)"
  "listeners (fst (snd (setState fenv newState action st w))) = listeners st"
  "store_middleware (fst (snd (setState fenv newState action st w))) = store_middleware st"
  by (simp_all add: setState_def processed_state_def Let_def split: prod.splits)



lemma new_store_state:
  "state new_store = initial_state ''2024-01-01'' ''09:00''"
  "store_middleware new_store = []" "listeners new_store = []"
  by (simp_all add: new_store_def AppStore_new_def loadSettings_def empty_browser_def)


lemma get_prop_set_prop:
  "is_plain_object obj \<Longrightarrow>
   get_prop (set_prop f v obj) g = (if g = f then v else get_prop obj g)"
  by (cases obj) (auto simp: get_prop_def update_conv')

lemma plain_set_prop: "is_plain_object obj \<Longrightarrow> is_plain_object (set_prop f v obj)"
  by (cases obj) auto

lemma map_method_ok:
  assumes "is_plain_object (state st)" and "map_field f st = Some m"
  shows "map_method f g st = (Returned JUndefined, st\<lparr>state := set_prop f (JMap (g m)) (state st)\<rparr>)"
  using assms by (auto simp: map_method_def map_field_def split: jsval.splits)

lemma map_field_update:
  "is_plain_object (state st) \<Longrightarrow>
   map_field g (st\<lparr>state := set_prop f (JMap m) (state st)\<rparr>)
     = (if g = f then Some m else map_field g st)"
  by (simp add: map_field_def get_prop_set_prop)

lemma removeCache_ok:
  assumes "cache_ok st"
  shows "fst (removeCache key st) = Returned JUndefined"
    and "cache_ok (snd (removeCache key st))"
    and "cached k (snd (removeCache key st)) = (if k = key then None else cached k st)"
    and "cached_at k (snd (removeCache key st)) = (if k = key then None else cached_at k st)"
    and "get_prop (state (snd (removeCache key st))) ''cacheTTL'' = get_prop (state st) ''cacheTTL''"
proof -
  from assms obtain c t where
    p: "is_plain_object (state st)" and c: "map_field ''cache'' st = Some c"
    and t: "map_field ''cacheTimestamps'' st = Some t"
    by (auto simp: cache_ok_def)
  let ?st1 = "st\<lparr>state := set_prop ''cache'' (JMap (AList.delete key c)) (state st)\<rparr>"
  have m1: "map_method ''cache'' (AList.delete key) st = (Returned JUndefined, ?st1)"
    by (rule map_method_ok[OF p c])
  have p1: "is_plain_object (state ?st1)" using p by (simp add: plain_set_prop)
  have t1: "map_field ''cacheTimestamps'' ?st1 = Some t"
    using t by (simp add: map_field_update[OF p])
  let ?st2 = "?st1\<lparr>state := set_prop ''cacheTimestamps'' (JMap (AList.delete key t)) (state ?st1)\<rparr>"
  have m2: "map_method ''cacheTimestamps'' (AList.delete key) ?st1 = (Returned JUndefined, ?st2)"
    by (rule map_method_ok[OF p1 t1])
  have r: "removeCache key st = (Returned JUndefined, ?st2)"
    by (simp add: removeCache_def m1 m2)
  have c2: "map_field ''cache'' ?st2 = Some (AList.delete key c)"
    using map_field_update[OF p1, of "''cache''" "''cacheTimestamps''"]
          map_field_update[OF p, of "''cache''" "''cache''"] by simp
  have t2: "map_field ''cacheTimestamps'' ?st2 = Some (AList.delete key t)"
    using map_field_update[OF p1, of "''cacheTimestamps''" "''cacheTimestamps''"] by simp
  show "fst (removeCache key st) = Returned JUndefined" by (simp add: r)
  show "cache_ok (snd (removeCache key st))"
    unfolding r cache_ok_def using c2 t2 p1 by (simp add: plain_set_prop)
  show "cached k (snd (removeCache key st)) = (if k = key then None else cached k st)"
    unfolding r cached_def using c2 c by (simp add: delete_conv')
  show "cached_at k (snd (removeCache key st)) = (if k = key then None else cached_at k st)"
    unfolding r cached_at_def using t2 t by (simp add: delete_conv')
  show "get_prop (state (snd (removeCache key st))) ''cacheTTL'' = get_prop (state st) ''cacheTTL''"
    unfolding r using p p1 by (simp add: get_prop_set_prop)
qed

lemma setCache_ok:
  assumes "cache_ok st"
  shows "fst (setCache key data ttl now st w) = Returned JUndefined"
    and "cache_ok (fst (snd (setCache key data ttl now st w)))"
    and "cached k (fst (snd (setCache key data ttl now st w)))
           = (if k = key then Some data else cached k st)"
    and "cached_at k (fst (snd (setCache key data ttl now st w)))
           = (if k = key then Some (JNum (int now)) else cached_at k st)"
    and "get_prop (state (fst (snd (setCache key data ttl now st w)))) ''cacheTTL''
           = get_prop (state st) ''cacheTTL''"
    and "snd (snd (setCache key data ttl now st w))
           = (if truthy ttl then snd (setTimeout (RemoveCache key) (delay_of ttl) now w) else w)"
proof -
  from assms obtain c t where
    p: "is_plain_object (state st)" and c: "map_field ''cache'' st = Some c"
    and t: "map_field ''cacheTimestamps'' st = Some t"
    by (auto simp: cache_ok_def)
  let ?st1 = "st\<lparr>state := set_prop ''cache'' (JMap (AList.update key data c)) (state st)\<rparr>"
  have m1: "map_method ''cache'' (AList.update key data) st = (Returned JUndefined, ?st1)"
    by (rule map_method_ok[OF p c])
  have p1: "is_plain_object (state ?st1)" using p by (simp add: plain_set_prop)
  have t1: "map_field ''cacheTimestamps'' ?st1 = Some t"
    using t by (simp add: map_field_update[OF p])
  let ?st2 = "?st1\<lparr>state := set_prop ''cacheTimestamps''
                  (JMap (AList.update key (JNum (int now)) t)) (state ?st1)\<rparr>"
  have m2: "map_method ''cacheTimestamps'' (AList.update key (JNum (int now))) ?st1
              = (Returned JUndefined, ?st2)"
    by (rule map_method_ok[OF p1 t1])
  have r: "setCache key data ttl now st w =
             (Returned JUndefined, ?st2,
              if truthy ttl then snd (setTimeout (RemoveCache key) (delay_of ttl) now w) else w)"
    by (simp add: setCache_def m1 m2)
  have c2: "map_field ''cache'' ?st2 = Some (AList.update key data c)"
    using map_field_update[OF p1, of "''cache''" "''cacheTimestamps''"]
          map_field_update[OF p, of "''cache''" "''cache''"] by simp
  have t2: "map_field ''cacheTimestamps'' ?st2 = Some (AList.update key (JNum (int now)) t)"
    using map_field_update[OF p1, of "''cacheTimestamps''" "''cacheTimestamps''"] by simp
  show "fst (setCache key data ttl now st w) = Returned JUndefined" by (simp add: r)
  show "cache_ok (fst (snd (setCache key data ttl now st w)))"
    unfolding r cache_ok_def using c2 t2 p1 by (simp add: plain_set_prop)
  show "cached k (fst (snd (setCache key data ttl now st w)))
           = (if k = key then Some data else cached k st)"
    unfolding r cached_def using c2 c by (simp add: update_conv')
  show "cached_at k (fst (snd (setCache key data ttl now st w)))
           = (if k = key then Some (JNum (int now)) else cached_at k st)"
    unfolding r cached_at_def using t2 t by (simp add: update_conv')
  show "get_prop (state (fst (snd (setCache key data ttl now st w)))) ''cacheTTL''
           = get_prop (state st) ''cacheTTL''"
    unfolding r using p p1 by (simp add: get_prop_set_prop)
  show "snd (snd (setCache key data ttl now st w))
           = (if truthy ttl then snd (setTimeout (RemoveCache key) (delay_of ttl) now w) else w)"
    by (simp add: r)
qed

lemma getCache_hit:
  assumes "cache_ok st" and "cached key st = Some v" and "cached_at key st = Some ts"
    and "truthy ts"
    and "fresh now ts (if truthy ttl then ttl else get_prop (state st) ''cacheTTL'')"
  shows "getCache fenv key fetcher ttl now later st w = (Returned v, st, w)"
proof -
  from assms(1,2,3) obtain c t where
    "get_prop (state st) ''cache'' = JMap c" "map_of c key = Some v"
    "get_prop (state st) ''cacheTimestamps'' = JMap t" "map_of t key = Some ts"
    by (auto simp: cache_ok_def cached_def cached_at_def map_field_def split: jsval.splits)
  with assms(4,5) show ?thesis by (simp add: getCache_def Let_def)
qed

lemma getCache_miss:
  assumes "cache_ok st" and "cached key st = None"
  shows "getCache fenv key fetcher ttl now later st w =
           fetch_miss fenv key fetcher
             (if truthy ttl then ttl else get_prop (state st) ''cacheTTL'') later st w"
proof -
  from assms obtain c t where
    "get_prop (state st) ''cache'' = JMap c" "map_of c key = None"
    "get_prop (state st) ''cacheTimestamps'' = JMap t"
    by (auto simp: cache_ok_def cached_def map_field_def split: jsval.splits)
  then show ?thesis by (simp add: getCache_def Let_def)
qed

lemma run_store_task_ok:
  assumes "cache_ok st"
  shows "cache_ok (fst (run_store_task h task st w))"
    and "cached key st = None \<Longrightarrow> cached key (fst (run_store_task h task st w)) = None"
    and "get_prop (state (fst (run_store_task h task st w))) ''cacheTTL''
           = get_prop (state st) ''cacheTTL''"
    and "snd (run_store_task h task st w) = w"
    and "cached k (fst (run_store_task h (RemoveCache k) st w)) = None"
  using removeCache_ok[OF assms] by (cases task; simp)+

lemma fire_all_store_ok:
  "fire_all run_store_task ts st w = (st', w') \<Longrightarrow> cache_ok st \<Longrightarrow>
   cache_ok st' \<and> (cached key st = None \<longrightarrow> cached key st' = None) \<and>
   get_prop (state st') ''cacheTTL'' = get_prop (state st) ''cacheTTL''"
proof (induction ts arbitrary: st w)
  case Nil then show ?case by simp
next
  case (Cons x ts)
  obtain h due task where x: "x = (h, due, task)" by (cases x)
  show ?case
  proof (cases "h \<in> set (map fst (timers w))")
    case False
    with Cons x show ?thesis by simp
  next
    case True
    let ?r = "run_store_task h task st (clearTimeout h w)"
    from Cons.prems(1) True x have f: "fire_all run_store_task ts (fst ?r) (snd ?r) = (st', w')"
      by (simp add: case_prod_unfold)
    from Cons.IH[OF f run_store_task_ok(1)[OF Cons.prems(2)]]
         run_store_task_ok(2)[OF Cons.prems(2), where key=key and h=h and task=task
                                and w="clearTimeout h w"]
         run_store_task_ok(3)[OF Cons.prems(2), where h=h and task=task and w="clearTimeout h w"]
    show ?thesis by simp
  qed
qed

lemma fire_all_store_fires:
  "fire_all run_store_task ts st w = (st', w') \<Longrightarrow> cache_ok st \<Longrightarrow>
   (h, due, RemoveCache key) \<in> set ts \<Longrightarrow> distinct (map fst ts) \<Longrightarrow>
   h \<in> set (map fst (timers w)) \<Longrightarrow> cached key st' = None"
proof (induction ts arbitrary: st w)
  case Nil then show ?case by simp
next
  case (Cons x ts)
  obtain h0 due0 task0 where x: "x = (h0, due0, task0)" by (cases x)
  let ?r = "run_store_task h0 task0 st (clearTimeout h0 w)"
  show ?case
  proof (cases "h0 = h")
    case True
    with Cons.prems(3,4) x have t0: "task0 = RemoveCache key"
      by force
    from Cons.prems(1,5) True x have f: "fire_all run_store_task ts (fst ?r) (snd ?r) = (st', w')"
      by (simp add: case_prod_unfold)
    have "cached key (fst ?r) = None"
      unfolding t0 by (rule run_store_task_ok(5)[OF Cons.prems(2)])
    with fire_all_store_ok[OF f run_store_task_ok(1)[OF Cons.prems(2)], of key]
    show ?thesis by simp
  next
    case False
    with Cons.prems(3) x have in_ts: "(h, due, RemoveCache key) \<in> set ts" by auto
    from Cons.prems(4) have d: "distinct (map fst ts)" by simp
    show ?thesis
    proof (cases "h0 \<in> set (map fst (timers w))")
      case True
      with Cons.prems(1) x have f: "fire_all run_store_task ts (fst ?r) (snd ?r) = (st', w')"
        by (simp add: case_prod_unfold)
      have "snd ?r = clearTimeout h0 w"
        by (rule run_store_task_ok(4)[OF Cons.prems(2)])
      moreover have "h \<in> set (map fst (timers (clearTimeout h0 w)))"
        using Cons.prems(5) False by (auto simp: clearTimeout_def)
      ultimately have p: "h \<in> set (map fst (timers (snd ?r)))" by simp
      from Cons.IH[OF f run_store_task_ok(1)[OF Cons.prems(2)] in_ts d p] show ?thesis .
    next
      case False
      with Cons.prems(1) x have f: "fire_all run_store_task ts st w = (st', w')" by simp
      from Cons.IH[OF f Cons.prems(2) in_ts d Cons.prems(5)] show ?thesis .
    qed
  qed
qed

lemma run_due_store:
  assumes "cache_ok st" and "distinct (map fst (timers w))"
    and "(h, due, RemoveCache key) \<in> set (timers w)" and "due \<le> t"
  shows "cache_ok (fst (run_due run_store_task t st w))"
    and "cached key (fst (run_due run_store_task t st w)) = None"
    and "get_prop (state (fst (run_due run_store_task t st w))) ''cacheTTL''
           = get_prop (state st) ''cacheTTL''"
proof -
  let ?ts = "sort_key (\<lambda>(h, due, task). due) (filter (\<lambda>(h, due, task). due \<le> t) (timers w))"
  obtain st' w' where f: "fire_all run_store_task ?ts st w = (st', w')"
    by (cases "fire_all run_store_task ?ts st w")
  have r: "run_due run_store_task t st w = (st', w')" by (simp add: run_due_def f)
  have m: "(h, due, RemoveCache key) \<in> set ?ts" using assms(3,4) by simp
  have "distinct (map fst (filter (\<lambda>(h, due, task). due \<le> t) (timers w)))"
    using assms(2) by (rule distinct_map_filter)
  moreover have "mset (map fst ?ts) = mset (map fst (filter (\<lambda>(h, due, task). due \<le> t) (timers w)))"
    by simp
  ultimately have d: "distinct (map fst ?ts)" by (metis mset_eq_imp_distinct_iff)
  have p: "h \<in> set (map fst (timers w))" using assms(3) by force
  from fire_all_store_ok[OF f assms(1), of key] fire_all_store_fires[OF f assms(1) m d p]
  show "cache_ok (fst (run_due run_store_task t st w))"
    and "cached key (fst (run_due run_store_task t st w)) = None"
    and "get_prop (state (fst (run_due run_store_task t st w))) ''cacheTTL''
           = get_prop (state st) ''cacheTTL''"
    by (simp_all add: r)
qed

lemma read_after_expiry:
  fixes w :: "(store_task, 'u, 'z) runtime_scheme"
  assumes "cache_ok st" and "timers_ok w" and "0 < ttl" and "now + ttl \<le> t"
  shows "getCache fenv key JNull JNull t later
           (fst (run_due run_store_task t
                  (fst (snd (setCache key v (JNum (int ttl)) now st w)))
                  (snd (snd (setCache key v (JNum (int ttl)) now st w)))))
           (snd (run_due run_store_task t
                  (fst (snd (setCache key v (JNum (int ttl)) now st w)))
                  (snd (snd (setCache key v (JNum (int ttl)) now st w)))))
         = (Returned JNull,
            run_due run_store_task t
              (fst (snd (setCache key v (JNum (int ttl)) now st w)))
              (snd (snd (setCache key v (JNum (int ttl)) now st w))))"
proof -
  let ?s = "setCache key v (JNum (int ttl)) now st w"
  let ?st1 = "fst (snd ?s)" and ?w1 = "snd (snd ?s)"
  note s = setCache_ok[OF assms(1), where key=key and data=v and ttl="JNum (int ttl)" and now=now and w=w]
  have w1: "timers ?w1 = timers w @ [(next_timer w, now + ttl, RemoveCache key)]"
    using s(6) assms(3) by (simp add: setTimeout_def)
  have d: "distinct (map fst (timers ?w1))"
    using assms(2) by (auto simp: w1 timers_ok_def)
  have m: "(next_timer w, now + ttl, RemoveCache key) \<in> set (timers ?w1)" by (simp add: w1)
  note r = run_due_store[OF s(2) d m assms(4)]
  show ?thesis
    using getCache_miss[OF r(1) r(2), where fenv=fenv and fetcher=JNull and ttl=JNull and now=t
        and later=later and w="snd (run_due run_store_task t ?st1 ?w1)"]
    by (simp add: fetch_miss_def)
qed

lemma new_store_cache_ok:
  "cache_ok new_store" "get_prop (state new_store) ''cacheTTL'' = JNum 300000"
  by (simp_all add: cache_ok_def map_field_def new_store_state initial_state_def get_prop_def)

lemma empty_browser_timers_ok: "timers_ok empty_browser"
  by (simp add: timers_ok_def empty_browser_def)

section \<open>Properties of \<^verbatim>\<open>waitFor\<close>\<close>






lemma listeners_of_delete:
  "listeners_of (b\<lparr>events := AList.delete E (events b)\<rparr>) E' =
     (if E' = E then [] else listeners_of b E')"
  by (simp add: listeners_of_def delete_conv')

lemma listeners_of_update:
  "listeners_of (b\<lparr>events := AList.update E ls (events b)\<rparr>) E' =
     (if E' = E then ls else listeners_of b E')"
  by (simp add: listeners_of_def update_conv')



lemma timers_settle [simp]: "timers (settle p st w) = timers w"
  by (simp add: settle_def)

lemma promises_clearTimeout [simp]: "promises (clearTimeout h w) = promises w"
  by (simp add: clearTimeout_def)

lemma handles_clearTimeout:
  "fst ` set (timers (clearTimeout h w)) = fst ` set (timers w) - {h}"
  by (force simp: clearTimeout_def)



















lemma run_bus_task_eval:
  "run_bus_task h0 (WaitForTimeout E' p' t') b w =
     (off E' (JFn (WaitForListener h0 p')) b, settle p' (Rejected (timeout_error E' t')) w)"
  by (simp add: timeout_error_def)










lemma length_filter_js_sort:
  "length (filter q (js_sort cmp xs)) = length (filter q xs)"
proof -
  have "mset (filter q (js_sort cmp xs)) = mset (filter q xs)"
    by (simp add: js_sort_mset)
  then show ?thesis by (metis size_mset)
qed

lemma length_js_sort: "length (js_sort cmp xs) = length xs"
  using length_filter_js_sort[of "\<lambda>x. True" cmp xs] by simp






section \<open>The claims\<close>

text \<open>
  Claim C1. Whatever the subscribers do, and for every sequence of \<^verbatim>\<open>on\<close> registrations on
  a new EventBus, \<^verbatim>\<open>emit\<close> of an event calls the functions registered for that event in
  descending order of priority, registrations of equal priority in the order in which they were
  made: the calls observed are the callbacks of the event's registrations, stably sorted by
  descending priority. In particular four functions registered with priorities 3, 1, 3, 0 are
  called in the order first, third, second, fourth.
\<close>

theorem publish_priority_order:
  "(let mine = filter (\<lambda>r. reg_event r = E) regs;
        order = sort_key (\<lambda>r. - opt_priority (reg_options r)) mine
    in invocations (snd (snd (emit (traced fenv) E data options now rnd
                                (subscribe_all regs EventBus_new) w)))
         = invocations w @ user_fns (map reg_callback order)
       \<and> sorted_wrt (\<lambda>r r'. opt_priority (reg_options r) \<ge> opt_priority (reg_options r')) order
       \<and> (\<forall>p. filter (\<lambda>r. opt_priority (reg_options r) = p) order
               = filter (\<lambda>r. opt_priority (reg_options r) = p) mine))
   \<and> invocations (snd (snd (emit (traced fenv) E data options now rnd
         (subscribe_all
            (map (\<lambda>(n, p). \<lparr>reg_event = E, reg_callback = JFn (UserFn n),
                             reg_options = \<lparr>opt_once = False, opt_priority = p,
                                            opt_context = JUndefined\<rparr>,
                             reg_now = t n, reg_rnd = r n\<rparr>)
               [(1, 3), (2, 1), (3, 3), (4, 0)])
            EventBus_new) w)))
       = invocations w @ [1, 3, 2, 4]"
proof -
  have gen: "invocations (snd (snd (emit (traced fenv) E data options now rnd
                                (subscribe_all rs EventBus_new) w)))
         = invocations w @ user_fns (map reg_callback
             (sort_key (\<lambda>r. - opt_priority (reg_options r)) (filter (\<lambda>r. reg_event r = E) rs)))" for rs
  proof -
    obtain results b' w' where e:
      "emit (traced fenv) E data options now rnd (subscribe_all rs EventBus_new) w = (results, b', w')"
      by (cases "emit (traced fenv) E data options now rnd (subscribe_all rs EventBus_new) w")
    have "callback \<circ> listener_of = reg_callback"
      by (rule ext) (simp add: listener_of_def new_listener_def)
    with emit_fresh_traced[OF e] show ?thesis
      by (simp add: e listeners_sorted)
  qed
  have srt: "sorted_wrt (\<lambda>r r'. opt_priority (reg_options r) \<ge> opt_priority (reg_options r'))
               (sort_key (\<lambda>r. - opt_priority (reg_options r)) xs)" for xs :: "registration list"
    using sorted_sort_key[of "\<lambda>r. - opt_priority (reg_options r)" xs]
    by (simp add: sorted_wrt_map)
  have stab: "filter (\<lambda>r. opt_priority (reg_options r) = p) (sort_key (\<lambda>r. - opt_priority (reg_options r)) xs)
               = filter (\<lambda>r. opt_priority (reg_options r) = p) xs" for xs :: "registration list" and p
    using sort_key_stable[of "\<lambda>r. - opt_priority (reg_options r)" "- p" xs] by simp
  show ?thesis
    unfolding Let_def
    apply (intro conjI allI)
       apply (rule gen)
      apply (rule srt)
     apply (rule stab)
    apply (subst gen)
    apply simp
    done
qed


text \<open>
  Claim C3. The removal of a \<^verbatim>\<open>once\<close> listener is the statement after
  \<^verbatim>\<open>results.push(result)\<close> inside the \<^verbatim>\<open>try\<close> block, so it is skipped when the
  listener throws. A listener registered with \<^verbatim>\<open>once\<close> whose function throws is still
  registered after the \<^verbatim>\<open>emit\<close> that called it, and the next \<^verbatim>\<open>emit\<close> of the event
  calls it a second time.
\<close>

theorem once_listener_that_throws_is_kept:
  "once (hd (listeners_of once_thrower ''x'')) \<and>
   fst first_publish = [JObj [(''error'', JErr ''boom'')]] \<and>
   listenerCount ''x'' (fst (snd first_publish)) = 1 \<and>
   invocations (snd (snd first_publish)) = [7] \<and>
   invocations (snd (snd second_publish)) = [7, 7]"
  by (simp add: second_publish_def first_publish_def once_thrower_eval emit_def EventBus_new_def
      addToHistory_def make_event_def assign_def executeListener_def traced_def failing_def
      idle_def listenerCount_def invocations_def listeners_of_def get_prop_def Let_def)

text \<open>
  Claim C4. In every state the EventBus can reach through its methods the history holds at most
  \<^verbatim>\<open>maxHistorySize\<close> events, and that limit is 100. A sequence of \<^verbatim>\<open>emit\<close> calls leaves
  in the history the most recent events, oldest first, as many as the limit allows. After 101
  calls on a new EventBus the history is the events of the second to the last call: the last
  event is in it, and the first is not (when it differs from the events published after it).
\<close>

theorem history_bounded_fifo:
  "(reachable fenv (b, w) \<longrightarrow>
      length (history b) \<le> maxHistorySize b \<and> maxHistorySize b = 100 \<and>
      history (fst (publish_all fenv cs b w))
        = drop (length (history b @ map event_of cs) - maxHistorySize b)
            (history b @ map event_of cs)) \<and>
   (length cs = Suc (maxHistorySize EventBus_new) \<longrightarrow>
      history (fst (publish_all fenv cs EventBus_new w)) = tl (map event_of cs) \<and>
      length (history (fst (publish_all fenv cs EventBus_new w))) = maxHistorySize EventBus_new \<and>
      event_of (last cs) \<in> set (history (fst (publish_all fenv cs EventBus_new w))) \<and>
      (event_of (hd cs) \<notin> set (map event_of (tl cs)) \<longrightarrow>
         event_of (hd cs) \<notin> set (history (fst (publish_all fenv cs EventBus_new w)))))"
proof (intro conjI impI)
  assume r: "reachable fenv (b, w)"
  from reachable_bounded[OF r] show le: "length (history b) \<le> maxHistorySize b"
    and "maxHistorySize b = 100" by (simp_all add: bounded_def)
  obtain b' w' where p: "publish_all fenv cs b w = (b', w')" by (cases "publish_all fenv cs b w")
  from history_publish_all[OF p le]
  show "history (fst (publish_all fenv cs b w))
        = drop (length (history b @ map event_of cs) - maxHistorySize b)
            (history b @ map event_of cs)" by (simp add: p)
next
  assume len: "length cs = Suc (maxHistorySize EventBus_new)"
  obtain b' w' where p: "publish_all fenv cs EventBus_new w = (b', w')"
    by (cases "publish_all fenv cs EventBus_new w")
  have "length (history EventBus_new) \<le> maxHistorySize EventBus_new"
    by (simp add: EventBus_new_def)
  from history_publish_all[OF p this] len
  have h: "history b' = drop 1 (map event_of cs)" by (simp add: EventBus_new_def)
  then show h': "history (fst (publish_all fenv cs EventBus_new w)) = tl (map event_of cs)"
    by (simp add: p drop_Suc)
  show "length (history (fst (publish_all fenv cs EventBus_new w))) = maxHistorySize EventBus_new"
    using h' len by simp
  from len obtain c cs' where "cs = c # cs'" "length cs' = 100"
    by (cases cs) (auto simp: EventBus_new_def)
  then have cs: "cs = c # cs'" "cs' \<noteq> []" by auto
  have "last (map event_of cs') \<in> set (map event_of cs')"
    using cs(2) by (intro last_in_set) simp
  moreover have "event_of (last cs) = last (map event_of cs')"
    using cs by (simp add: last_map)
  ultimately show "event_of (last cs) \<in> set (history (fst (publish_all fenv cs EventBus_new w)))"
    using h' cs(1) by simp
  assume "event_of (hd cs) \<notin> set (map event_of (tl cs))"
  then show "event_of (hd cs) \<notin> set (history (fst (publish_all fenv cs EventBus_new w)))"
    using h' by (simp add: map_tl)
qed

theorem history_bounded_fifo_witness:
  "reachable failing (EventBus_new, idle ()) \<and>
   length (ticks 101) = Suc (maxHistorySize EventBus_new) \<and>
   event_of (hd (ticks 101)) \<notin> set (map event_of (tl (ticks 101))) \<and>
   length (history EventBus_new) \<le> maxHistorySize EventBus_new \<and>
   history (fst (publish_all failing (ticks 101) EventBus_new (idle ())))
     = tl (map event_of (ticks 101)) \<and>
   event_of (hd (ticks 101)) \<notin> set (history (fst (publish_all failing (ticks 101) EventBus_new (idle ())))) \<and>
   event_of (last (ticks 101)) \<in> set (history (fst (publish_all failing (ticks 101) EventBus_new (idle ()))))"
proof -
  have r: "reachable failing (EventBus_new, idle ())" by (rule reachable.new)
  have l: "length (ticks 101) = Suc (maxHistorySize EventBus_new)"
    by (simp add: ticks_def EventBus_new_def)
  have "ticks 101 = tick 0 # map tick [1..<Suc 100]"
    using ticks_Suc[of 100] by simp
  then have d: "event_of (hd (ticks 101)) \<notin> set (map event_of (tl (ticks 101)))"
    by (auto simp: tick_distinct)
  note T = history_bounded_fifo[of failing EventBus_new "idle ()" "ticks 101"]
  note T1 = T[THEN conjunct1, THEN mp, OF r]
  note T2 = T[THEN conjunct2, THEN mp, OF l]
  note a = T1[THEN conjunct1]
  note b1 = T2[THEN conjunct1]
  note b2 = T2[THEN conjunct2, THEN conjunct2, THEN conjunct2, THEN mp, OF d]
  note b3 = T2[THEN conjunct2, THEN conjunct2, THEN conjunct1]
  show ?thesis by (intro conjI) (rule r l d a b1 b2 b3)+
qed

text \<open>
  Claim C10, as the code has it. An \<^verbatim>\<open>emit\<close> of an event that has no listener, on an
  EventBus without wildcard listeners, returns the empty list; the event is the newest entry of
  the history and is among the entries \<^verbatim>\<open>getHistory()\<close> returns; the history size that
  \<^verbatim>\<open>getStats()\<close> reports grows by one when the history was below its limit and is unchanged
  when the history was full.
\<close>

theorem publish_without_subscribers:
  assumes "\<not> hasEvent E b" and "wildcardListeners b = []" and "0 < maxHistorySize b"
  shows "fst (emit fenv E data options now rnd b w) = [] \<and>
         last (history (fst (snd (emit fenv E data options now rnd b w))))
           = make_event E data options now rnd \<and>
         make_event E data options now rnd
           \<in> set (getHistory 50 (fst (snd (emit fenv E data options now rnd b w)))) \<and>
         historySize (getStats (fst (snd (emit fenv E data options now rnd b w))))
           = (if historySize (getStats b) < maxHistorySize b then Suc (historySize (getStats b))
              else historySize (getStats b))"
proof -
  let ?ev = "make_event E data options now rnd"
  let ?b' = "fst (snd (emit fenv E data options now rnd b w))"
  have b': "?b' = addToHistory ?ev b" by (rule emit_no_listeners(1)[OF assms(1)])
  have h: "history ?b' = (if length (history b) < maxHistorySize b then history b @ [?ev]
                          else tl (history b @ [?ev]))"
    by (auto simp: b' addToHistory_def Let_def)
  have ne: "\<not> length (history b) < maxHistorySize b \<Longrightarrow> history b \<noteq> []"
    using assms(3) by auto
  have l: "last (history ?b') = ?ev"
    using h ne by (cases "history b") auto
  have n: "history ?b' \<noteq> []" using h ne by (cases "history b") auto
  have "last (history ?b') \<in> set (getHistory 50 ?b')"
    using n by (cases "history ?b'" rule: rev_cases) (auto simp: getHistory_def slice_from_def)
  with l have g: "?ev \<in> set (getHistory 50 ?b')" by simp
  have s: "historySize (getStats ?b')
           = (if historySize (getStats b) < maxHistorySize b then Suc (historySize (getStats b))
              else historySize (getStats b))"
    using h by (auto simp: getStats_def)
  from emit_no_listeners(2)[OF assms(1,2)] l g s show ?thesis by blast
qed

theorem publish_without_subscribers_witness:
  "\<not> hasEvent ''quiet'' EventBus_new \<and> wildcardListeners EventBus_new = [] \<and>
   0 < maxHistorySize EventBus_new \<and>
   fst (emit failing ''quiet'' JNull (JObj []) 5 0 EventBus_new (idle ())) = [] \<and>
   historySize (getStats (fst (snd (emit failing ''quiet'' JNull (JObj []) 5 0 EventBus_new (idle ())))))
     = 1"
proof -
  have a: "\<not> hasEvent ''quiet'' EventBus_new" "wildcardListeners EventBus_new = []"
    "0 < maxHistorySize EventBus_new"
    by (simp_all add: hasEvent_def EventBus_new_def)
  have s: "historySize (getStats EventBus_new) = 0" "maxHistorySize EventBus_new = 100"
    by (simp_all add: getStats_def EventBus_new_def)
  from publish_without_subscribers[OF a, of failing JNull "JObj []" 5 0 "idle ()"] a s
  show ?thesis by simp
qed

text \<open>
  The history size does not grow on an EventBus whose history is full: after 100 events, one
  more \<^verbatim>\<open>emit\<close> without subscribers leaves the size at 100.
\<close>

theorem full_history_does_not_grow:
  "\<not> hasEvent ''quiet'' full_bus \<and> wildcardListeners full_bus = [] \<and>
   fst (emit failing ''quiet'' JNull (JObj []) 100 0 full_bus (idle ())) = [] \<and>
   historySize (getStats full_bus) = 100 \<and>
   historySize (getStats (fst (snd (emit failing ''quiet'' JNull (JObj []) 100 0 full_bus (idle ())))))
     = 100"
proof -
  obtain b' w' where p: "publish_all failing (ticks 100) EventBus_new (idle ()) = (b', w')"
    by (cases "publish_all failing (ticks 100) EventBus_new (idle ())")
  then have fb: "full_bus = b'" by (simp add: full_bus_def)
  have q: "events b' = []" "wildcardListeners b' = []"
    using publish_all_quiet[OF p] by (simp_all add: EventBus_new_def)
  have "length (history EventBus_new) \<le> maxHistorySize EventBus_new"
    by (simp add: EventBus_new_def)
  from history_publish_all[OF p this]
  have h: "length (history b') = 100" "maxHistorySize b' = 100"
    by (simp_all add: EventBus_new_def ticks_def)
  have ne: "\<not> hasEvent ''quiet'' b'" using q by (simp add: hasEvent_def)
  have "fst (snd (emit failing ''quiet'' JNull (JObj []) 100 0 b' (idle ())))
          = addToHistory (make_event ''quiet'' JNull (JObj []) 100 0) b'"
    by (rule emit_no_listeners(1)[OF ne])
  then have "historySize (getStats (fst (snd (emit failing ''quiet'' JNull (JObj []) 100 0 b' (idle ()))))) = 100"
    using h by (simp add: getStats_def addToHistory_def Let_def)
  with ne q h emit_no_listeners(2)[OF ne q(2)] show ?thesis
    by (simp add: fb getStats_def)
qed



text \<open>
  Claim C6. \<^verbatim>\<open>mergeDeep\<close> tests both values with \<^verbatim>\<open>instanceof Object\<close>, which an
  array passes: an incoming array over an existing array is merged index by index into a plain
  object. Merging \<^verbatim>\<open>["c"]\<close> over \<^verbatim>\<open>["a", "b"]\<close> gives \<^verbatim>\<open>{0: "c", 1: "b"}\<close>, and
  \<^verbatim>\<open>setState({ui: {notifications: ["n"]}})\<close> on a store as constructed leaves
  \<^verbatim>\<open>ui.notifications\<close> the object \<^verbatim>\<open>{0: "n"}\<close>, not the array.
\<close>

theorem mergeDeep_combines_arrays:
  "mergeDeep (JObj [(''list'', JArr [JStr ''a'', JStr ''b''])]) (JObj [(''list'', JArr [JStr ''c''])])
     = JObj [(''list'', JObj [(''0'', JStr ''c''), (''1'', JStr ''b'')])] \<and>
   getState (Some ''ui.notifications'')
     (fst (snd (setState quiet (JObj [(''ui'', JObj [(''notifications'', JArr [JStr ''n''])])])
                  (JObj []) new_store empty_browser)))
     = JObj [(''0'', JStr ''n'')]"
  by (simp add: getState_def get_in_def state_setState(1) processed_state_def new_store_state
      initial_state_def mergeDeep.simps get_prop_def string_of_nat.simps)



text \<open>
  Claim C8, as the code has it. On a store whose two cache maps are in place and whose
  \<^verbatim>\<open>cacheTTL\<close> is \<open>T\<close>, after \<^verbatim>\<open>setCache(key, v, ttl)\<close> at time \<open>now\<close>: a
  \<^verbatim>\<open>getCache(key)\<close> at a time less than \<open>T\<close> later, and before the timer that
  \<^verbatim>\<open>setCache\<close> set has fired, returns \<open>v\<close> and changes nothing (at once, in particular);
  once the event loop has run the timers due at a time \<open>t\<close> with \<open>now + ttl \<le> t\<close>, a
  \<^verbatim>\<open>getCache(key)\<close> without fetcher returns \<^verbatim>\<open>null\<close>, and one with a fetcher that
  yields \<open>data\<close> returns \<open>data\<close> and leaves it in the cache under the key.
\<close>

theorem cache_expiry:
  fixes w :: "(store_task, 'u, 'z) runtime_scheme"
  assumes "cache_ok st" and "timers_ok w"
    and "get_prop (state st) ''cacheTTL'' = JNum T" and "0 < ttl" and "0 < now"
  shows
   "(now \<le> now' \<and> int now' - int now < T \<longrightarrow>
       getCache fenv key fetcher JNull now' later
         (fst (snd (setCache key v (JNum (int ttl)) now st w)))
         (snd (snd (setCache key v (JNum (int ttl)) now st w)))
       = (Returned v, fst (snd (setCache key v (JNum (int ttl)) now st w)),
          snd (snd (setCache key v (JNum (int ttl)) now st w)))) \<and>
    (now + ttl \<le> t \<longrightarrow>
       (let r = run_due run_store_task t
                  (fst (snd (setCache key v (JNum (int ttl)) now st w)))
                  (snd (snd (setCache key v (JNum (int ttl)) now st w)))
        in getCache fenv key JNull JNull t later (fst r) (snd r) = (Returned JNull, fst r, snd r) \<and>
           (call_function fenv f JUndefined [] (fst r) (snd r) = (Returned data, w3) \<longrightarrow>
              fst (getCache fenv key (JFn f) JNull t later (fst r) (snd r)) = Returned data \<and>
              cached key (fst (snd (getCache fenv key (JFn f) JNull t later (fst r) (snd r))))
                = Some data)))"
proof (intro conjI impI)
  let ?s = "setCache key v (JNum (int ttl)) now st w"
  let ?st1 = "fst (snd ?s)" and ?w1 = "snd (snd ?s)"
  note s = setCache_ok[OF assms(1), where key=key and data=v and ttl="JNum (int ttl)" and now=now and w=w]
  have ok1: "cache_ok ?st1" by (rule s(2))
  have c1: "cached key ?st1 = Some v" using s(3)[where k=key] by simp
  have a1: "cached_at key ?st1 = Some (JNum (int now))" using s(4)[where k=key] by simp
  have ttl1: "get_prop (state ?st1) ''cacheTTL'' = JNum T" using s(5) assms(3) by simp
  have w1: "timers ?w1 = timers w @ [(next_timer w, now + ttl, RemoveCache key)]"
    using s(6) assms(4) by (simp add: setTimeout_def)
  {
    assume "now \<le> now' \<and> int now' - int now < T"
    then have "fresh now' (JNum (int now)) (if truthy JNull then JNull else get_prop (state ?st1) ''cacheTTL'')"
      by (simp add: ttl1 fresh_def)
    moreover have "truthy (JNum (int now))" using assms(5) by simp
    ultimately show "getCache fenv key fetcher JNull now' later ?st1 ?w1 = (Returned v, ?st1, ?w1)"
      using getCache_hit[OF ok1 c1 a1] by blast
  }
  assume t: "now + ttl \<le> t"
  let ?r = "run_due run_store_task t ?st1 ?w1"
  have d: "distinct (map fst (timers ?w1))"
    using assms(2) by (auto simp: w1 timers_ok_def)
  have m: "(next_timer w, now + ttl, RemoveCache key) \<in> set (timers ?w1)" by (simp add: w1)
  note r = run_due_store[OF ok1 d m t]
  have miss: "getCache fenv key fetcher' JNull t later (fst ?r) (snd ?r)
                = fetch_miss fenv key fetcher' (get_prop (state (fst ?r)) ''cacheTTL'') later
                    (fst ?r) (snd ?r)" for fetcher'
    using getCache_miss[OF r(1) r(2), where fenv=fenv and fetcher=fetcher' and ttl=JNull and now=t
        and later=later and w="snd ?r"] by simp
  have n: "getCache fenv key JNull JNull t later (fst ?r) (snd ?r) = (Returned JNull, fst ?r, snd ?r)"
    by (simp add: miss fetch_miss_def)
  have f: "fst (getCache fenv key (JFn f) JNull t later (fst ?r) (snd ?r)) = Returned data \<and>
           cached key (fst (snd (getCache fenv key (JFn f) JNull t later (fst ?r) (snd ?r))))
             = Some data"
    if c: "call_function fenv f JUndefined [] (fst ?r) (snd ?r) = (Returned data, w3)"
  proof -
    let ?c = "setCache key data (get_prop (state (fst ?r)) ''cacheTTL'') later (fst ?r) w3"
    note sc = setCache_ok[OF r(1), where key=key and data=data
        and ttl="get_prop (state (fst ?r)) ''cacheTTL''" and now=later and w=w3]
    have "fetch_miss fenv key (JFn f) (get_prop (state (fst ?r)) ''cacheTTL'') later (fst ?r) (snd ?r)
            = (Returned data, fst (snd ?c), snd (snd ?c))"
      using sc(1) by (cases ?c) (auto simp: fetch_miss_def c)
    with sc(3)[where k=key] show ?thesis by (simp add: miss)
  qed
  show "let r = ?r
        in getCache fenv key JNull JNull t later (fst r) (snd r) = (Returned JNull, fst r, snd r) \<and>
           (call_function fenv f JUndefined [] (fst r) (snd r) = (Returned data, w3) \<longrightarrow>
              fst (getCache fenv key (JFn f) JNull t later (fst r) (snd r)) = Returned data \<and>
              cached key (fst (snd (getCache fenv key (JFn f) JNull t later (fst r) (snd r))))
                = Some data)"
    unfolding Let_def using n f by blast
qed

theorem cache_expiry_witness:
  "cache_ok new_store \<and> timers_ok empty_browser \<and>
   get_prop (state new_store) ''cacheTTL'' = JNum 300000 \<and> (0::nat) < 20 \<and> (0::nat) < 1000 \<and>
   (1000::nat) \<le> 1000 \<and> int 1000 - int 1000 < 300000 \<and> (1000::nat) + 20 \<le> 1025 \<and>
   fst (getCache quiet ''k'' JNull JNull 1000 1000 (fst (snd cached_store)) (snd (snd cached_store)))
     = Returned (JStr ''v'') \<and>
   fst (getCache quiet ''k'' JNull JNull 1025 1025 (fst expired_store) (snd expired_store))
     = Returned JNull"
proof -
  have h: "(0::nat) < 20" "(0::nat) < 1000" by simp_all
  note T = cache_expiry[OF new_store_cache_ok(1) empty_browser_timers_ok new_store_cache_ok(2) h,
      where now'=1000 and fenv=quiet and key="''k''" and fetcher=JNull and later=1000
        and v="JStr ''v''" and t=1025]
  have a: "(1000::nat) \<le> 1000 \<and> int 1000 - int 1000 < 300000" by simp
  have b: "(1000::nat) + 20 \<le> 1025" by simp
  note T1 = T[THEN conjunct1, THEN mp, OF a]
  note T2 = cache_expiry[OF new_store_cache_ok(1) empty_browser_timers_ok new_store_cache_ok(2) h,
      where fenv=quiet and key="''k''" and later=1025 and v="JStr ''v''" and t=1025,
      THEN conjunct2, THEN mp, OF b, unfolded Let_def, THEN conjunct1]
  from T1 T2 new_store_cache_ok empty_browser_timers_ok show ?thesis
    by (simp add: cached_store_def expired_store_def)
qed

text \<open>
  After \<^verbatim>\<open>setCache("k", "v", 20)\<close> at time 1000 on a store as constructed, with the timers
  run at time 1025, \<^verbatim>\<open>getCache("k")\<close> returns \<^verbatim>\<open>null\<close>, which is not \<^verbatim>\<open>undefined\<close>.
\<close>

theorem expired_read_is_null:
  "fst (getCache quiet ''k'' JNull JNull 1025 1025 (fst expired_store) (snd expired_store))
     = Returned JNull \<and>
   fst (getCache quiet ''k'' JNull JNull 1025 1025 (fst expired_store) (snd expired_store))
     \<noteq> Returned JUndefined"
proof -
  have "(0::nat) < 20" "(1000::nat) + 20 \<le> 1025" by simp_all
  from read_after_expiry[OF new_store_cache_ok(1) empty_browser_timers_ok this,
      where fenv=quiet and key="''k''" and later=1025 and v="JStr ''v''"]
  show ?thesis by (simp add: cached_store_def expired_store_def)
qed



end
